theory Spec2Isabelle
  imports Main
begin

section \<open>Strings and paths\<close>

text \<open>
  The program is a Python script. A Python \<^verbatim>\<open>str\<close> is a sequence of Unicode code points
  and is modelled as a list of natural numbers; \<open>lit\<close> turns an ASCII literal into such a
  list. \<^verbatim>\<open>str.lower\<close> is a function of the Python runtime with a table of its own (it is
  not a map on single characters: it sends \<open>U+0130\<close> to two code points): the
  environment gives it, as \<open>str_lower\<close>, and everything below holds for whatever it is.
  Paths are POSIX paths in normal form (no \<open>.\<close>, \<open>..\<close> or doubled separators) on a file
  system without links, so that two paths name the same file exactly when they resolve to
  the same sequence. A path of the file system holds no NUL; a line read back from a log
  may, and \<^verbatim>\<open>os.system\<close> refuses it.
\<close>

type_synonym str = "nat list"

definition lit :: "string \<Rightarrow> str" where
  "lit s = map of_char s"

definition sep :: nat where
  \<comment> \<open>the slash\<close>
  "sep = 47"

definition LF :: nat where
  "LF = 10"

definition CR :: nat where
  "CR = 13"

definition quote :: nat where
  \<comment> \<open>the single quote\<close>
  "quote = 39"

definition NUL :: nat where
  "NUL = 0"

fun startswith :: "str \<Rightarrow> str \<Rightarrow> bool" where
  "startswith s [] = True"
| "startswith [] (k # ks) = False"
| "startswith (c # cs) (k # ks) = (c = k \<and> startswith cs ks)"

fun str_in :: "str \<Rightarrow> str \<Rightarrow> bool" where
  \<comment> \<open>\<^verbatim>\<open>k in s\<close> on two strings: \<open>k\<close> occurs in \<open>s\<close> as a contiguous run\<close>
  "str_in k [] = (k = [])"
| "str_in k (c # cs) = (startswith (c # cs) k \<or> str_in k cs)"

definition basename :: "str \<Rightarrow> str" where
  \<comment> \<open>\<^verbatim>\<open>os.path.basename(p)\<close>: what follows the last separator\<close>
  "basename p = rev (takeWhile (\<lambda>c. c \<noteq> sep) (rev p))"

definition dirname :: "str \<Rightarrow> str" where
  \<comment> \<open>\<^verbatim>\<open>os.path.dirname(p)\<close>: the part up to the last separator, with its trailing
      separators removed unless it consists of separators only\<close>
  "dirname p =
     (let head = rev (dropWhile (\<lambda>c. c \<noteq> sep) (rev p))
      in if head \<noteq> [] \<and> head \<noteq> replicate (length head) sep
         then rev (dropWhile (\<lambda>c. c = sep) (rev head)) else head)"

definition path_join :: "str \<Rightarrow> str \<Rightarrow> str" where
  \<comment> \<open>\<^verbatim>\<open>os.path.join(a, b)\<close>\<close>
  "path_join a b =
     (if b \<noteq> [] \<and> hd b = sep then b
      else if a = [] \<or> last a = sep then a @ b
      else a @ [sep] @ b)"

section \<open>The keyword catalog and the classifier\<close>

definition BASE_DIR :: str where
  "BASE_DIR = (lit ''/home/dan/Business'')"

definition DEST_DIR :: str where
  "DEST_DIR = BASE_DIR @ (lit ''/Compliance_Frameworks'')"

definition LOG_FILE :: str where
  "LOG_FILE = (lit ''classification_log.txt'')"

definition ROLLBACK_LOG :: str where
  "ROLLBACK_LOG = (lit ''rollback_log.txt'')"

text \<open>
  \<^verbatim>\<open>FRAMEWORKS\<close> is a dict literal; Python iterates a dict in insertion order, so the
  catalog is the association list of its items in the order they are written.
\<close>

definition FRAMEWORKS :: "(str \<times> str list) list" where
  "FRAMEWORKS =
     [((lit ''FFIEC''), [(lit ''ffiec''), (lit ''federal financial institutions'')]),
      ((lit ''NIST''), [(lit ''nist''), (lit ''cybersecurity framework'')]),
      ((lit ''ISO''), [(lit ''iso 27001''), (lit ''international standards organization'')]),
      ((lit ''FTC''), [(lit ''ftc safeguard''), (lit ''federal trade commission'')]),
      ((lit ''GLBA''), [(lit ''glba''), (lit ''gramm-leach-bliley'')]),
      ((lit ''CIS''), [(lit ''cis controls''), (lit ''center for internet security'')])]"

fun any_keyword :: "(str \<Rightarrow> str) \<Rightarrow> str list \<Rightarrow> str \<Rightarrow> bool" where
  \<comment> \<open>\<^verbatim>\<open>any(keyword.lower() in file_name.lower() for keyword in keywords)\<close>, with
      \<^verbatim>\<open>str.lower\<close> as \<open>lower\<close>\<close>
  "any_keyword lower [] file_name = False"
| "any_keyword lower (keyword # keywords) file_name =
     (str_in (lower keyword) (lower file_name) \<or> any_keyword lower keywords file_name)"

fun match_loop :: "(str \<Rightarrow> str) \<Rightarrow> (str \<times> str list) list \<Rightarrow> str \<Rightarrow> str list" where
  \<comment> \<open>the loop over \<^verbatim>\<open>FRAMEWORKS.items()\<close> that fills \<^verbatim>\<open>matched_frameworks\<close>\<close>
  "match_loop lower [] file_name = []"
| "match_loop lower ((framework, keywords) # items) file_name =
     (if any_keyword lower keywords file_name
      then framework # match_loop lower items file_name
      else match_loop lower items file_name)"

section \<open>The world the script runs in\<close>

text \<open>
  The script reads and writes a file system, calls the Joplin note service, reads the
  clock and runs shell commands. The file system is a store from resolved paths to file
  contents together with the set of directories; every other effect is recorded as an
  event of the trace, in the order in which the script performed it.

  An operation can fail for reasons that the store does not show (permissions, a full
  disk, a missing parent directory, the note service being down). The environment decides
  this: \<open>fails E w op\<close> says that \<open>op\<close>, attempted in the world \<open>w\<close>, raises. A failed
  operation changes nothing. The environment also gives the working directory, the
  text of \<^verbatim>\<open>datetime.now()\<close>, the identifier that the note service gives to a new note,
  the triples that \<^verbatim>\<open>os.walk\<close> yields, and \<^verbatim>\<open>str.lower\<close>.
\<close>

datatype error =
    SameFileError str str
  | FileNotFoundError str
  | IsADirectoryError str
  | NotADirectoryError str
  | OSError str
  | ValueError str
  | JoplinError

datatype io_op =
    Makedirs str
  | Copy2 str str
  | Append str str
  | ReadFile str
  | CreateNote str str
  | CreateTag str
  | AddTagToNote str nat
  | System str
  | Print str
  | PrintError error

record world =
  files :: "str \<rightharpoonup> str"
  dirs :: "str set"
  trace :: "io_op list"

record env =
  cwd :: str
  now :: "world \<Rightarrow> str"
  note_id :: "world \<Rightarrow> nat"
  os_walk :: "str \<Rightarrow> (str \<times> str list \<times> str list) list"
  str_lower :: "str \<Rightarrow> str"
  fails :: "world \<Rightarrow> io_op \<Rightarrow> bool"

type_synonym 'a io = "world \<Rightarrow> (error + 'a) \<times> world"

definition ok :: "'a \<Rightarrow> 'a io" where
  "ok x w = (Inr x, w)"

definition andthen :: "'a io \<Rightarrow> ('a \<Rightarrow> 'b io) \<Rightarrow> 'b io" where
  \<comment> \<open>sequencing of two statements: an exception of the first skips the second\<close>
  "andthen m f w = (case m w of (Inl e, w') \<Rightarrow> (Inl e, w') | (Inr x, w') \<Rightarrow> f x w')"

definition perform :: "env \<Rightarrow> io_op \<Rightarrow> error \<Rightarrow> (world \<Rightarrow> world) \<Rightarrow> unit io" where
  "perform E op e effect w =
     (if fails E w op then (Inl e, w)
      else (Inr (), (effect w)\<lparr>trace := trace w @ [op]\<rparr>))"

definition resolve :: "env \<Rightarrow> str \<Rightarrow> str" where
  \<comment> \<open>a relative path is relative to the working directory\<close>
  "resolve E p = path_join (cwd E) p"

definition path_exists :: "env \<Rightarrow> str \<Rightarrow> world \<Rightarrow> bool" where
  \<comment> \<open>\<^verbatim>\<open>os.path.exists(p)\<close>\<close>
  "path_exists E p w = (files w (resolve E p) \<noteq> None \<or> resolve E p \<in> dirs w)"

definition makedirs :: "env \<Rightarrow> str \<Rightarrow> unit io" where
  \<comment> \<open>\<^verbatim>\<open>os.makedirs(d)\<close>; the intermediate directories it creates are not tracked, no
      operation of the script looks at them\<close>
  "makedirs E d = perform E (Makedirs d) (OSError d) (\<lambda>w. w\<lparr>dirs := insert (resolve E d) (dirs w)\<rparr>)"

definition copy2 :: "env \<Rightarrow> str \<Rightarrow> str \<Rightarrow> unit io" where
  \<comment> \<open>\<^verbatim>\<open>shutil.copy2(src, dst)\<close>. A directory as \<open>dst\<close> means the file of the same name
      in it. A source that does not exist is reported when it is opened; copying an
      existing file onto itself is refused before that; the source must be a regular
      file; the target must not be a directory and must lie in a directory.\<close>
  "copy2 E src dst w =
     (let target = (if resolve E dst \<in> dirs w then path_join dst (basename src) else dst);
          s = resolve E src;
          d = resolve E target
      in if files w s = None \<and> s \<notin> dirs w then (Inl (FileNotFoundError src), w)
         else if s = d then (Inl (SameFileError src target), w)
         else case files w s of
           None \<Rightarrow> (Inl (IsADirectoryError src), w)
         | Some content \<Rightarrow>
             if d \<in> dirs w then (Inl (IsADirectoryError target), w)
             else if dirname d \<notin> dirs w then
               (Inl (if files w (dirname d) \<noteq> None then NotADirectoryError target
                     else FileNotFoundError target), w)
             else perform E (Copy2 src dst) (OSError target)
                    (\<lambda>w. w\<lparr>files := (files w)(d \<mapsto> content)\<rparr>) w)"

definition append_file :: "env \<Rightarrow> str \<Rightarrow> str \<Rightarrow> unit io" where
  \<comment> \<open>\<^verbatim>\<open>with open(path, "a") as f: f.write(text)\<close>\<close>
  "append_file E path text w =
     (let p = resolve E path
      in if p \<in> dirs w then (Inl (IsADirectoryError path), w)
         else perform E (Append path text) (OSError path)
                (\<lambda>w. w\<lparr>files := (files w)(p \<mapsto> (case files w p of None \<Rightarrow> text | Some c \<Rightarrow> c @ text))\<rparr>) w)"

definition read_file :: "env \<Rightarrow> str \<Rightarrow> str io" where
  \<comment> \<open>\<^verbatim>\<open>with open(path, "r") as f\<close>, up to the point where the content is at hand\<close>
  "read_file E path w =
     (let p = resolve E path
      in case files w p of
           None \<Rightarrow> (Inl (if p \<in> dirs w then IsADirectoryError path else FileNotFoundError path), w)
         | Some content \<Rightarrow>
             if fails E w (ReadFile path) then (Inl (OSError path), w)
             else (Inr content, w\<lparr>trace := trace w @ [ReadFile path]\<rparr>))"

definition print :: "io_op \<Rightarrow> unit io" where
  "print line w = (Inr (), w\<lparr>trace := trace w @ [line]\<rparr>)"

definition os_system :: "str \<Rightarrow> unit io" where
  \<comment> \<open>\<^verbatim>\<open>os.system(command)\<close> returns the exit status and does not raise when the
      command fails; it raises \<^verbatim>\<open>ValueError\<close> for a command with a NUL in it. What the
      shell does to the files is outside the script.\<close>
  "os_system command w =
     (if NUL \<in> set command then (Inl (ValueError command), w)
      else (Inr (), w\<lparr>trace := trace w @ [System command]\<rparr>))"

section \<open>The script\<close>

definition ensure_dir :: "env \<Rightarrow> str \<Rightarrow> unit io" where
  "ensure_dir E directory w =
     (if \<not> path_exists E directory w then makedirs E directory w else (Inr (), w))"

definition audit_line :: "str \<Rightarrow> str \<Rightarrow> str \<Rightarrow> str \<Rightarrow> str" where
  \<comment> \<open>\<^verbatim>\<open>f"{datetime.now()} - {action}: {src} -> {dest}\n"\<close>\<close>
  "audit_line stamp action src dest =
     stamp @ (lit '' - '') @ action @ (lit '': '') @ src @ (lit '' -> '') @ dest @ [LF]"

definition rollback_line :: "str \<Rightarrow> str \<Rightarrow> str" where
  \<comment> \<open>\<^verbatim>\<open>f"mv '{dest}' '{src}'\n"\<close>\<close>
  "rollback_line src dest =
     (lit ''mv '') @ [quote] @ dest @ [quote] @ (lit '' '') @ [quote] @ src @ [quote] @ [LF]"

definition log_action :: "env \<Rightarrow> str \<Rightarrow> str \<Rightarrow> str \<Rightarrow> unit io" where
  "log_action E action src dest =
     andthen (\<lambda>w. append_file E LOG_FILE (audit_line (now E w) action src dest) w)
       (\<lambda>_. append_file E ROLLBACK_LOG (rollback_line src dest))"

fun tag_loop :: "env \<Rightarrow> str list \<Rightarrow> nat \<Rightarrow> unit io" where
  \<comment> \<open>\<^verbatim>\<open>for tag in tags: joplin.create_tag(tag); joplin.add_tag_to_note(tag, note["id"])\<close>\<close>
  "tag_loop E [] note = ok ()"
| "tag_loop E (tag # tags) note =
     andthen (perform E (CreateTag tag) JoplinError id)
       (\<lambda>_. andthen (perform E (AddTagToNote tag note) JoplinError id)
          (\<lambda>_. tag_loop E tags note))"

definition assign_joplin_tags :: "env \<Rightarrow> str \<Rightarrow> str list \<Rightarrow> unit io" where
  "assign_joplin_tags E file_path tags w =
     (let title = basename file_path;
          content = (lit ''File: '') @ file_path @ [LF] @ (lit ''Located in: '') @ dirname file_path
      in andthen (perform E (CreateNote title content) JoplinError id)
           (\<lambda>_. tag_loop E tags (note_id E w)) w)"

definition copy_step :: "env \<Rightarrow> str \<Rightarrow> str \<Rightarrow> unit io" where
  \<comment> \<open>the body of the loop over \<^verbatim>\<open>matched_frameworks\<close>\<close>
  "copy_step E file_path framework =
     (let file_name = basename file_path;
          dest_folder = DEST_DIR @ (lit ''/'') @ framework;
          dest_path = path_join dest_folder file_name
      in andthen (ensure_dir E dest_folder)
           (\<lambda>_. andthen (copy2 E file_path dest_path)
              (\<lambda>_. andthen (assign_joplin_tags E file_path [(lit ''framework:'') @ framework])
                 (\<lambda>_. log_action E (lit ''COPY'') file_path dest_path))))"

fun copy_loop :: "env \<Rightarrow> str \<Rightarrow> str list \<Rightarrow> unit io" where
  "copy_loop E file_path [] = ok ()"
| "copy_loop E file_path (framework # frameworks) =
     andthen (copy_step E file_path framework) (\<lambda>_. copy_loop E file_path frameworks)"

definition matched_frameworks :: "env \<Rightarrow> str \<Rightarrow> str list" where
  \<comment> \<open>the value of \<^verbatim>\<open>matched_frameworks\<close> when \<^verbatim>\<open>classify_file(file_path)\<close> leaves its
      first loop\<close>
  "matched_frameworks E file_path = match_loop (str_lower E) FRAMEWORKS (basename file_path)"

definition classify_file :: "env \<Rightarrow> str \<Rightarrow> unit io" where
  "classify_file E file_path =
     (let matched = matched_frameworks E file_path
      in if matched \<noteq> [] then copy_loop E file_path matched
         else andthen (assign_joplin_tags E file_path [(lit ''status:Unclassified'')])
                (\<lambda>_. log_action E (lit ''LEAVE'') file_path file_path))"

fun file_loop :: "env \<Rightarrow> str \<Rightarrow> str list \<Rightarrow> unit io" where
  \<comment> \<open>\<^verbatim>\<open>for file in files: classify_file(os.path.join(root, file))\<close>\<close>
  "file_loop E root [] = ok ()"
| "file_loop E root (file # rest) =
     andthen (classify_file E (path_join root file)) (\<lambda>_. file_loop E root rest)"

fun walk_loop :: "env \<Rightarrow> (str \<times> str list \<times> str list) list \<Rightarrow> unit io" where
  \<comment> \<open>\<^verbatim>\<open>for root, _, files in ...\<close>, the file names of a directory being \<open>names\<close>\<close>
  "walk_loop E [] = ok ()"
| "walk_loop E ((root, subdirs, names) # rest) =
     andthen (file_loop E root names) (\<lambda>_. walk_loop E rest)"

definition process_files :: "env \<Rightarrow> str \<Rightarrow> unit io" where
  \<comment> \<open>the triples that \<^verbatim>\<open>os.walk(base_dir)\<close> yields are given by the environment, as one
      list: a walk that picks up what the run itself creates is not modelled\<close>
  "process_files E base_dir = walk_loop E (os_walk E base_dir)"

definition main :: "env \<Rightarrow> world \<Rightarrow> world" where
  \<comment> \<open>the \<^verbatim>\<open>try\<close>/\<^verbatim>\<open>except Exception\<close> around the run\<close>
  "main E w =
     (case process_files E (lit ''/home/dan/Business/BanksArchive/SSB_ProjectMgmt'') w of
        (Inr _, w') \<Rightarrow> snd (print (Print (lit ''File classification complete.'')) w')
      | (Inl e, w') \<Rightarrow> snd (print (PrintError e) w'))"

subsection \<open>Rollback\<close>

fun universal_newlines :: "str \<Rightarrow> str" where
  \<comment> \<open>reading in text mode turns \<open>CR LF\<close> and a lone \<open>CR\<close> into \<open>LF\<close>\<close>
  "universal_newlines [] = []"
| "universal_newlines [c] = [if c = CR then LF else c]"
| "universal_newlines (c # d # cs) =
     (if c = CR \<and> d = LF then LF # universal_newlines cs
      else if c = CR then LF # universal_newlines (d # cs)
      else c # universal_newlines (d # cs))"

fun split_lines :: "str \<Rightarrow> str \<Rightarrow> str list" where
  \<comment> \<open>lines keep their \<open>LF\<close>; a last line without one is a line too\<close>
  "split_lines cur [] = (if cur = [] then [] else [cur])"
| "split_lines cur (c # cs) =
     (if c = LF then (cur @ [LF]) # split_lines [] cs else split_lines (cur @ [c]) cs)"

definition readlines :: "str \<Rightarrow> str list" where
  \<comment> \<open>\<^verbatim>\<open>f.readlines()\<close> on the content of a text file\<close>
  "readlines content = split_lines [] (universal_newlines content)"

definition isspace :: "nat \<Rightarrow> bool" where
  \<comment> \<open>the code points for which \<^verbatim>\<open>str.isspace\<close> holds: \<open>U+0009..U+000D\<close>,
      \<open>U+001C..U+0020\<close>, \<open>U+0085\<close>, \<open>U+00A0\<close>, \<open>U+1680\<close>, \<open>U+2000..U+200A\<close>, \<open>U+2028\<close>,
      \<open>U+2029\<close>, \<open>U+202F\<close>, \<open>U+205F\<close> and \<open>U+3000\<close>\<close>
  "isspace c =
     (if c < 0x85 then (9 \<le> c \<and> c \<le> 13) \<or> (28 \<le> c \<and> c \<le> 32)
      else c = 0x85 \<or> c = 0xA0 \<or> c = 0x1680 \<or> (0x2000 \<le> c \<and> c \<le> 0x200A)
        \<or> c = 0x2028 \<or> c = 0x2029 \<or> c = 0x202F \<or> c = 0x205F \<or> c = 0x3000)"

definition strip :: "str \<Rightarrow> str" where
  \<comment> \<open>\<^verbatim>\<open>s.strip()\<close>\<close>
  "strip s = rev (dropWhile isspace (rev (dropWhile isspace s)))"

fun command_loop :: "str list \<Rightarrow> unit io" where
  \<comment> \<open>\<^verbatim>\<open>for command in ...: os.system(command.strip())\<close>\<close>
  "command_loop [] = ok ()"
| "command_loop (command # commands) =
     andthen (os_system (strip command)) (\<lambda>_. command_loop commands)"

definition rollback :: "env \<Rightarrow> unit io" where
  "rollback E =
     andthen (read_file E ROLLBACK_LOG)
       (\<lambda>content. andthen (command_loop (rev (readlines content)))
          (\<lambda>_. print (Print (lit ''Rollback complete.''))))"

section \<open>Notions of the specification\<close>

text \<open>
  Case is what \<^verbatim>\<open>str.lower\<close> removes. A fragment is a case-insensitive substring of a
  name when the fragment, lower-cased, is a contiguous run of the lower-cased name. Where
  lower-casing works character by character this says that some contiguous run of the
  name itself equals the fragment up to case, which is \<open>ci_run\<close>.
\<close>

definition ci_substring :: "(str \<Rightarrow> str) \<Rightarrow> str \<Rightarrow> str \<Rightarrow> bool" where
  "ci_substring lower fragment name =
     (\<exists>before after. lower name = before @ lower fragment @ after)"

definition ci_run :: "(str \<Rightarrow> str) \<Rightarrow> str \<Rightarrow> str \<Rightarrow> bool" where
  "ci_run lower fragment name =
     (\<exists>before run after. name = before @ run @ after \<and> lower run = lower fragment)"

definition audit_entry :: "str \<Rightarrow> str \<Rightarrow> str \<Rightarrow> str \<Rightarrow> str" where
  \<comment> \<open>the audit line as the specification gives it,
      \<^verbatim>\<open><timestamp> - <COPY|LEAVE>: <src> -> <dest>\<close>, ended by a line feed\<close>
  "audit_entry stamp kind src dest =
     stamp @ lit '' - '' @ kind @ lit '': '' @ src @ lit '' -> '' @ dest @ [LF]"

definition restore_instruction :: "str \<Rightarrow> str \<Rightarrow> str" where
  \<comment> \<open>the shell instruction that moves \<open>dest\<close> back to \<open>src\<close>: \<^verbatim>\<open>mv '<dest>' '<src>'\<close>\<close>
  "restore_instruction src dest =
     lit ''mv '' @ [quote] @ dest @ [quote] @ lit '' '' @ [quote] @ src @ [quote]"

definition copy_target :: "str \<Rightarrow> str \<Rightarrow> str" where
  \<comment> \<open>where the specification puts the copy for a framework:
      \<^verbatim>\<open><dest_root>/<FrameworkID>/<basename>\<close>\<close>
  "copy_target file_path framework =
     DEST_DIR @ lit ''/'' @ framework @ lit ''/'' @ basename file_path"

definition no_linebreak :: "str \<Rightarrow> bool" where
  \<comment> \<open>the text fits on one line of a text file\<close>
  "no_linebreak s = (LF \<notin> set s \<and> CR \<notin> set s)"

definition file_text :: "world \<Rightarrow> str \<Rightarrow> str" where
  \<comment> \<open>the content that an append finds: nothing when the file is not there yet\<close>
  "file_text w p = (case files w p of None \<Rightarrow> [] | Some c \<Rightarrow> c)"

definition dest_folder_of :: "str \<Rightarrow> str" where
  \<comment> \<open>\<^verbatim>\<open>dest_folder\<close> and \<^verbatim>\<open>dest_path\<close> of the copy loop, as functions of the framework\<close>
  "dest_folder_of framework = DEST_DIR @ (lit ''/'') @ framework"

definition dest_path_of :: "str \<Rightarrow> str \<Rightarrow> str" where
  "dest_path_of file_path framework = path_join (dest_folder_of framework) (basename file_path)"

text \<open>The kinds of events that the properties count in a trace.\<close>

fun is_copy :: "io_op \<Rightarrow> bool" where
  "is_copy (Copy2 src dst) = True"
| "is_copy op = False"

fun is_audit :: "io_op \<Rightarrow> bool" where
  "is_audit (Append path text) = (path = LOG_FILE)"
| "is_audit op = False"

fun is_append :: "io_op \<Rightarrow> bool" where
  "is_append (Append path text) = True"
| "is_append op = False"

fun is_joplin :: "io_op \<Rightarrow> bool" where
  "is_joplin (CreateNote title body) = True"
| "is_joplin (CreateTag tag) = True"
| "is_joplin (AddTagToNote tag note) = True"
| "is_joplin op = False"

definition kept :: "env \<Rightarrow> str \<Rightarrow> world \<Rightarrow> world \<Rightarrow> bool" where
  \<comment> \<open>from \<open>w\<close> to \<open>w'\<close> the file at \<open>s\<close> stays, and only a log file grows\<close>
  "kept E s w w' =
     (case files w s of
        None \<Rightarrow> True
      | Some c \<Rightarrow>
          (\<exists>suffix. files w' s = Some (c @ suffix)
             \<and> (s \<noteq> resolve E LOG_FILE \<and> s \<noteq> resolve E ROLLBACK_LOG \<longrightarrow> suffix = [])))"

section \<open>Sample environments and worlds\<close>

text \<open>
  Concrete environments and worlds on which the properties below are run: an environment
  in which nothing fails, one that refuses a single operation, one in which the note
  service is down, and one whose walk yields two files. Their \<open>str_lower\<close> is
  \<^verbatim>\<open>str.lower\<close> on ASCII text, which is all that the sample names contain.
\<close>

definition ascii_lower :: "str \<Rightarrow> str" where
  "ascii_lower s = map (\<lambda>c. if 65 \<le> c \<and> c \<le> 90 then c + 32 else c) s"

definition quiet_env :: env where
  "quiet_env = \<lparr>cwd = lit ''/run'', now = (\<lambda>w. lit ''T''), note_id = (\<lambda>w. length (trace w)),
     os_walk = (\<lambda>base_dir. []), str_lower = ascii_lower, fails = (\<lambda>w op. False)\<rparr>"

definition refusing :: "io_op \<Rightarrow> env" where
  "refusing bad = quiet_env\<lparr>fails := (\<lambda>w op. op = bad)\<rparr>"

definition joplin_down :: env where
  "joplin_down = quiet_env\<lparr>fails := (\<lambda>w op. is_joplin op)\<rparr>"

definition walk_env :: env where
  "walk_env = (refusing (Copy2 (lit ''/in/nist a'') (dest_path_of (lit ''/in/nist a'') (lit ''NIST''))))
     \<lparr>os_walk := (\<lambda>base_dir. [(lit ''/in'', [], [lit ''nist a'', lit ''b''])])\<rparr>"

definition sample_file :: str where
  "sample_file = lit ''/in/nist iso 27001''"


definition broken_path :: str where
  \<comment> \<open>a path with a line feed in the file name\<close>
  "broken_path = lit ''/in/a'' @ [LF] @ lit ''b''"


definition iso_refused :: env where
  "iso_refused = refusing (Copy2 sample_file (dest_path_of sample_file (lit ''ISO'')))"



definition empty_world :: world where
  "empty_world = \<lparr>files = Map.empty, dirs = {}, trace = []\<rparr>"

definition one_file :: "str \<Rightarrow> world" where
  "one_file p = \<lparr>files = [p \<mapsto> lit ''data''], dirs = {}, trace = []\<rparr>"

definition two_files :: world where
  "two_files =
     \<lparr>files = [lit ''/in/nist a'' \<mapsto> lit ''data'', lit ''/in/b'' \<mapsto> lit ''data''],
      dirs = {lit ''/in''}, trace = []\<rparr>"

definition two_logged :: world where
  "two_logged =
     snd (log_action quiet_env (lit ''COPY'') (lit ''/in/a'') (lit ''/out/a'')
       (snd (log_action quiet_env (lit ''LEAVE'') (lit ''/in/b'') (lit ''/in/b'') empty_world)))"

definition broken_logged :: world where
  "broken_logged =
     snd (log_action quiet_env (lit ''COPY'') broken_path (lit ''/out/x'') empty_world)"

section \<open>The classifier\<close>

lemma result_pair: "fst x = a \<Longrightarrow> x = (a, snd x)"
  by (cases x) simp

lemma quiet_env_never_fails: "\<forall>w op. \<not> fails quiet_env w op"
  by (simp add: quiet_env_def)

lemma startswith_iff: "startswith s k \<longleftrightarrow> (\<exists>t. s = k @ t)"
  by (induction s k rule: startswith.induct) auto

lemma str_in_iff: "str_in k s \<longleftrightarrow> (\<exists>a b. s = a @ k @ b)"
proof (induction s)
  case Nil
  then show ?case by auto
next
  case (Cons c cs)
  show ?case
  proof
    assume "str_in k (c # cs)"
    then consider "startswith (c # cs) k" | "str_in k cs" by auto
    then show "\<exists>a b. c # cs = a @ k @ b"
    proof cases
      case 1
      then obtain t where "c # cs = k @ t" by (auto simp: startswith_iff)
      then have "c # cs = [] @ k @ t" by simp
      then show ?thesis by blast
    next
      case 2
      then obtain a b where "cs = a @ k @ b" using Cons.IH by auto
      then have "c # cs = (c # a) @ k @ b" by simp
      then show ?thesis by blast
    qed
  next
    assume "\<exists>a b. c # cs = a @ k @ b"
    then obtain a b where ab: "c # cs = a @ k @ b" by auto
    show "str_in k (c # cs)"
    proof (cases a)
      case Nil
      with ab have "startswith (c # cs) k" by (auto simp: startswith_iff)
      then show ?thesis by simp
    next
      case (Cons x a')
      with ab have "cs = a' @ k @ b" by simp
      then have "str_in k cs" using Cons.IH by auto
      then show ?thesis by simp
    qed
  qed
qed

lemma str_in_ci: "str_in (lower k) (lower s) \<longleftrightarrow> ci_substring lower k s"
  by (simp add: str_in_iff ci_substring_def)

lemma ci_run_iff: "ci_substring (map f) k s \<longleftrightarrow> ci_run (map f) k s"
proof
  assume "ci_substring (map f) k s"
  then obtain a b where "map f s = a @ map f k @ b"
    unfolding ci_substring_def by blast
  then have "\<exists>s1 r1. s = s1 @ r1 \<and> a = map f s1 \<and> map f k @ b = map f r1"
    by (simp add: map_eq_append_conv)
  then obtain s1 r1 where s1: "s = s1 @ r1" "map f k @ b = map f r1"
    by blast
  from s1(2) have "\<exists>s2 s3. r1 = s2 @ s3 \<and> map f k = map f s2 \<and> b = map f s3"
    by (simp add: append_eq_map_conv)
  then obtain s2 s3 where "r1 = s2 @ s3" "map f s2 = map f k"
    by auto
  with s1 have "s = s1 @ s2 @ s3" "map f s2 = map f k"
    by simp_all
  then show "ci_run (map f) k s"
    unfolding ci_run_def by blast
next
  assume "ci_run (map f) k s"
  then obtain a r b where "s = a @ r @ b" "map f r = map f k"
    unfolding ci_run_def by blast
  then have "map f s = map f a @ map f k @ map f b"
    by simp
  then show "ci_substring (map f) k s"
    unfolding ci_substring_def by blast
qed

lemma any_keyword_iff:
  "any_keyword lower ks name \<longleftrightarrow> (\<exists>k \<in> set ks. ci_substring lower k name)"
  by (induction ks) (auto simp: str_in_ci)

lemma match_loop_filter:
  "match_loop lower items name
     = map fst (filter (\<lambda>(framework, ks). any_keyword lower ks name) items)"
  by (induction lower items name rule: match_loop.induct) auto

lemma match_loop_member:
  assumes "distinct (map fst items)" and "(framework, ks) \<in> set items"
  shows "framework \<in> set (match_loop lower items name) \<longleftrightarrow> any_keyword lower ks name"
proof
  assume "framework \<in> set (match_loop lower items name)"
  then obtain ks' where "(framework, ks') \<in> set items" "any_keyword lower ks' name"
    by (auto simp: match_loop_filter)
  moreover have "ks' = ks"
    using assms calculation(1) by (meson eq_key_imp_eq_value)
  ultimately show "any_keyword lower ks name" by simp
next
  assume "any_keyword lower ks name"
  then show "framework \<in> set (match_loop lower items name)"
    using assms(2) by (force simp: match_loop_filter)
qed

lemma FRAMEWORKS_distinct: "distinct (map fst FRAMEWORKS)"
  by (simp add: FRAMEWORKS_def lit_def)

lemma match_loop_empty:
  "(\<forall>(framework, ks) \<in> set items. \<not> any_keyword lower ks name) \<Longrightarrow>
     match_loop lower items name = []"
  by (induction lower items name rule: match_loop.induct) auto

lemma not_in_empty: "k \<noteq> [] \<Longrightarrow> \<not> str_in k []"
  by simp

lemma any_keyword_empty_name:
  assumes "lower [] = []" and "\<forall>k \<in> set ks. lower k \<noteq> []"
  shows "\<not> any_keyword lower ks []"
  using assms by (induction ks) auto

text \<open>
  C1. For every file name and every framework of the catalog, the classifier puts the
  framework's identifier into its result exactly when one of the framework's keyword
  fragments is a case-insensitive substring of the name, whatever \<^verbatim>\<open>str.lower\<close> is;
  nothing but identifiers of the catalog is in the result. A name that contains no
  fragment of the catalog gives the empty result, and so does the empty name, as
  lower-casing keeps the empty text empty and no keyword becomes empty. The classifier of
  \<open>classify_file\<close> is this loop on the basename.
\<close>

theorem classify_iff_fragment:
  "(\<forall>(framework, ks) \<in> set FRAMEWORKS.
      framework \<in> set (match_loop lower FRAMEWORKS file_name)
        \<longleftrightarrow> (\<exists>k \<in> set ks. ci_substring lower k file_name))
   \<and> set (match_loop lower FRAMEWORKS file_name) \<subseteq> fst ` set FRAMEWORKS
   \<and> ((\<forall>(framework, ks) \<in> set FRAMEWORKS. \<forall>k \<in> set ks. \<not> ci_substring lower k file_name)
        \<longrightarrow> match_loop lower FRAMEWORKS file_name = [])
   \<and> (lower [] = [] \<and> (\<forall>(framework, ks) \<in> set FRAMEWORKS. \<forall>k \<in> set ks. lower k \<noteq> [])
        \<longrightarrow> match_loop lower FRAMEWORKS [] = [])
   \<and> ((\<exists>f. lower = map f)
        \<longrightarrow> ci_substring lower fragment file_name = ci_run lower fragment file_name)
   \<and> matched_frameworks E p = match_loop (str_lower E) FRAMEWORKS (basename p)"
proof (intro conjI)
  show "\<forall>(framework, ks) \<in> set FRAMEWORKS.
      framework \<in> set (match_loop lower FRAMEWORKS file_name)
        \<longleftrightarrow> (\<exists>k \<in> set ks. ci_substring lower k file_name)"
    using match_loop_member [OF FRAMEWORKS_distinct] any_keyword_iff by fastforce
  show "set (match_loop lower FRAMEWORKS file_name) \<subseteq> fst ` set FRAMEWORKS"
    by (auto simp: match_loop_filter)
  show "(\<forall>(framework, ks) \<in> set FRAMEWORKS. \<forall>k \<in> set ks. \<not> ci_substring lower k file_name)
        \<longrightarrow> match_loop lower FRAMEWORKS file_name = []"
    using match_loop_empty [of FRAMEWORKS lower file_name] any_keyword_iff by fastforce
  show "lower [] = [] \<and> (\<forall>(framework, ks) \<in> set FRAMEWORKS. \<forall>k \<in> set ks. lower k \<noteq> [])
        \<longrightarrow> match_loop lower FRAMEWORKS [] = []"
    using match_loop_empty [of FRAMEWORKS lower "[]"] any_keyword_empty_name [of lower]
    by fastforce
  show "(\<exists>f. lower = map f)
        \<longrightarrow> ci_substring lower fragment file_name = ci_run lower fragment file_name"
    using ci_run_iff by auto
  show "matched_frameworks E p = match_loop (str_lower E) FRAMEWORKS (basename p)"
    by (simp add: matched_frameworks_def)
qed

lemma no_match_random_notes:
  "\<forall>(framework, ks) \<in> set FRAMEWORKS. \<not> any_keyword ascii_lower ks (lit ''random_notes.txt'')"
  by code_simp

lemma ascii_lower_keywords:
  "\<forall>(framework, ks) \<in> set FRAMEWORKS. \<forall>k \<in> set ks. ascii_lower k \<noteq> []"
  by code_simp

theorem classify_iff_fragment_witness:
  "(lit ''FFIEC'', [lit ''ffiec'', lit ''federal financial institutions'']) \<in> set FRAMEWORKS
   \<and> ci_substring ascii_lower (lit ''ffiec'') (lit ''FFIEC_Q3_Report.pdf'')
   \<and> ci_run ascii_lower (lit ''ffiec'') (lit ''FFIEC_Q3_Report.pdf'')
   \<and> lit ''FFIEC'' \<in> set (match_loop ascii_lower FRAMEWORKS (lit ''FFIEC_Q3_Report.pdf''))
   \<and> match_loop ascii_lower FRAMEWORKS (lit ''random_notes.txt'') = []
   \<and> ascii_lower [] = []
   \<and> match_loop ascii_lower FRAMEWORKS [] = []"
proof -
  note th = classify_iff_fragment [of ascii_lower]
  have m: "(lit ''FFIEC'', [lit ''ffiec'', lit ''federal financial institutions'']) \<in> set FRAMEWORKS"
    by (simp add: FRAMEWORKS_def)
  have "str_in (ascii_lower (lit ''ffiec'')) (ascii_lower (lit ''FFIEC_Q3_Report.pdf''))"
    by code_simp
  then have c: "ci_substring ascii_lower (lit ''ffiec'') (lit ''FFIEC_Q3_Report.pdf'')"
    by (simp add: str_in_ci)
  have "\<exists>f. ascii_lower = map f"
    unfolding ascii_lower_def by blast
  with th [of "lit ''FFIEC_Q3_Report.pdf''" "lit ''ffiec''"] c
  have r: "ci_run ascii_lower (lit ''ffiec'') (lit ''FFIEC_Q3_Report.pdf'')"
    by blast
  have i: "lit ''FFIEC'' \<in> set (match_loop ascii_lower FRAMEWORKS (lit ''FFIEC_Q3_Report.pdf''))"
    using th [of "lit ''FFIEC_Q3_Report.pdf''"] m c by fastforce
  have "\<forall>(framework, ks) \<in> set FRAMEWORKS. \<forall>k \<in> set ks.
      \<not> ci_substring ascii_lower k (lit ''random_notes.txt'')"
    using no_match_random_notes any_keyword_iff by fastforce
  then have n: "match_loop ascii_lower FRAMEWORKS (lit ''random_notes.txt'') = []"
    using th [of "lit ''random_notes.txt''"] by blast
  have e: "ascii_lower [] = []"
    by (simp add: ascii_lower_def)
  with th ascii_lower_keywords have "match_loop ascii_lower FRAMEWORKS [] = []"
    by blast
  with m c r i n e show ?thesis by blast
qed

lemma basename_path_join:
  assumes n: "sep \<notin> set name"
  shows "basename (path_join dir name) = name"
proof -
  have tw: "takeWhile (\<lambda>c. c \<noteq> sep) (rev name @ xs) = rev name @ takeWhile (\<lambda>c. c \<noteq> sep) xs" for xs
    using n by (intro takeWhile_append2) auto
  have h: "name \<noteq> [] \<Longrightarrow> hd name \<noteq> sep"
    using n by (cases name) auto
  have e: "last dir = sep \<Longrightarrow> takeWhile (\<lambda>c. c \<noteq> sep) (rev dir) = []"
    by (cases dir rule: rev_cases) auto
  show ?thesis
    using h e tw [of "[]"] tw [of "rev dir"] tw [of "sep # rev dir"]
    by (auto simp: basename_def path_join_def)
qed

text \<open>
  C10. The classification depends on the basename of the path only: two paths with the
  same basename are matched with the same frameworks, and a name joined to any
  directory is matched as the name alone.
\<close>

theorem classification_depends_on_basename:
  "(basename p = basename q \<longrightarrow> matched_frameworks E p = matched_frameworks E q)
   \<and> (sep \<notin> set name \<longrightarrow>
        matched_frameworks E (path_join dir name) = match_loop (str_lower E) FRAMEWORKS name)"
  by (simp add: matched_frameworks_def basename_path_join)

theorem classification_depends_on_basename_witness:
  "basename (lit ''/a/nist.txt'') = basename (lit ''/b/c/nist.txt'')
   \<and> matched_frameworks quiet_env (lit ''/a/nist.txt'')
       = matched_frameworks quiet_env (lit ''/b/c/nist.txt'')
   \<and> sep \<notin> set (lit ''nist.txt'')
   \<and> matched_frameworks quiet_env (path_join (lit ''/a'') (lit ''nist.txt''))
       = match_loop (str_lower quiet_env) FRAMEWORKS (lit ''nist.txt'')"
proof -
  have b: "basename (lit ''/a/nist.txt'') = basename (lit ''/b/c/nist.txt'')"
    by code_simp
  have n: "sep \<notin> set (lit ''nist.txt'')"
    by code_simp
  show ?thesis
    using classification_depends_on_basename
      [of "lit ''/a/nist.txt''" "lit ''/b/c/nist.txt''" quiet_env "lit ''nist.txt''" "lit ''/a''"] b n
    by blast
qed

section \<open>Logging, rollback and the copies\<close>

lemma andthen_Inr: "m w = (Inr x, w') \<Longrightarrow> andthen m f w = f x w'"
  by (simp add: andthen_def)

lemma andthen_Inl: "m w = (Inl e, w') \<Longrightarrow> andthen m f w = (Inl e, w')"
  by (simp add: andthen_def)

lemma andthen_InrD:
  "andthen m f w = (Inr y, w'') \<Longrightarrow> \<exists>x w'. m w = (Inr x, w') \<and> f x w' = (Inr y, w'')"
  by (auto simp: andthen_def split: prod.splits sum.splits)

lemma audit_line_entry: "audit_line stamp action src dest = audit_entry stamp action src dest"
  by (simp add: audit_line_def audit_entry_def)

lemma rollback_line_restore: "rollback_line src dest = restore_instruction src dest @ [LF]"
  by (simp add: rollback_line_def restore_instruction_def)

lemma universal_newlines_id: "CR \<notin> set s \<Longrightarrow> universal_newlines s = s"
  by (induction s rule: universal_newlines.induct) auto

lemma set_universal_newlines: "set (universal_newlines s) \<subseteq> insert LF (set s)"
  by (induction s rule: universal_newlines.induct) auto

lemma split_lines_line:
  "LF \<notin> set l \<Longrightarrow> split_lines cur (l @ LF # rest) = (cur @ l @ [LF]) # split_lines [] rest"
  by (induction l arbitrary: cur) auto

lemma set_split_lines:
  "l \<in> set (split_lines cur s) \<Longrightarrow> set l \<subseteq> insert LF (set cur \<union> set s)"
proof (induction s arbitrary: cur)
  case Nil
  then show ?case by (auto split: if_splits)
next
  case (Cons c s)
  show ?case
  proof (cases "c = LF")
    case True
    with Cons.prems have "l = cur @ [LF] \<or> l \<in> set (split_lines [] s)" by simp
    then show ?thesis using Cons.IH [of "[]"] by auto
  next
    case False
    with Cons.prems have "l \<in> set (split_lines (cur @ [c]) s)" by simp
    from Cons.IH [OF this] show ?thesis by auto
  qed
qed

lemma set_strip: "set (strip s) \<subseteq> set s"
proof -
  have "set (dropWhile isspace (rev (dropWhile isspace s))) \<subseteq> set (rev (dropWhile isspace s))"
    by (auto dest: set_dropWhileD)
  moreover have "set (dropWhile isspace s) \<subseteq> set s"
    by (auto dest: set_dropWhileD)
  ultimately show ?thesis by (auto simp: strip_def)
qed

lemma lines_without_nul:
  assumes "NUL \<notin> set content" and "l \<in> set (readlines content)"
  shows "NUL \<notin> set (strip l)"
proof -
  have "set l \<subseteq> insert LF (set (universal_newlines content))"
    using set_split_lines [of l "[]" "universal_newlines content"] assms(2)
    by (simp add: readlines_def)
  then have "set l \<subseteq> insert LF (set content)"
    using set_universal_newlines [of content] by auto
  then have "NUL \<notin> set l"
    using assms(1) by (auto simp: NUL_def LF_def)
  then show ?thesis
    using set_strip [of l] by auto
qed

lemma restore_instruction_no_linebreak:
  "no_linebreak src \<Longrightarrow> no_linebreak dest \<Longrightarrow> no_linebreak (restore_instruction src dest)"
  by (auto simp: no_linebreak_def restore_instruction_def LF_def CR_def quote_def lit_def)

lemma restore_instruction_no_nul:
  "NUL \<notin> set src \<Longrightarrow> NUL \<notin> set dest \<Longrightarrow> NUL \<notin> set (restore_instruction src dest)"
  by (auto simp: restore_instruction_def NUL_def quote_def lit_def)

lemma readlines_recorded:
  assumes "\<forall>(src, dest) \<in> set entries. no_linebreak src \<and> no_linebreak dest"
  shows "readlines (concat (map (\<lambda>(src, dest). rollback_line src dest) entries))
           = map (\<lambda>(src, dest). rollback_line src dest) entries"
proof -
  let ?text = "\<lambda>es. concat (map (\<lambda>(src, dest). rollback_line src dest) es)"
  have cr: "CR \<notin> set (?text entries)"
    using assms restore_instruction_no_linebreak
    by (fastforce simp: rollback_line_restore no_linebreak_def LF_def CR_def)
  have "split_lines [] (?text es) = map (\<lambda>(src, dest). rollback_line src dest) es"
    if "\<forall>(src, dest) \<in> set es. no_linebreak src \<and> no_linebreak dest" for es
    using that
  proof (induction es)
    case Nil
    then show ?case by simp
  next
    case (Cons entry es)
    obtain src dest where entry: "entry = (src, dest)" by (cases entry)
    have "LF \<notin> set (restore_instruction src dest)"
      using Cons.prems entry restore_instruction_no_linebreak [of src dest]
      by (simp add: no_linebreak_def)
    then have "split_lines [] (restore_instruction src dest @ LF # ?text es)
        = ([] @ restore_instruction src dest @ [LF]) # split_lines [] (?text es)"
      by (rule split_lines_line)
    then show ?case
      using Cons entry by (simp add: rollback_line_restore)
  qed
  with assms cr show ?thesis
    by (simp add: readlines_def universal_newlines_id)
qed

lemma strip_rollback_line: "strip (rollback_line src dest) = restore_instruction src dest"
  by (simp add: strip_def rollback_line_def restore_instruction_def isspace_def LF_def quote_def
      lit_def)

lemma command_loop_trace:
  "\<forall>c \<in> set commands. NUL \<notin> set (strip c) \<Longrightarrow>
     command_loop commands w
       = (Inr (), w\<lparr>trace := trace w @ map (\<lambda>c. System (strip c)) commands\<rparr>)"
proof (induction commands arbitrary: w)
  case Nil
  then show ?case by (simp add: ok_def)
next
  case (Cons c commands)
  then show ?case
    by (simp add: andthen_def os_system_def)
qed

lemma rollback_replays_lines:
  assumes "files w (resolve E ROLLBACK_LOG) = Some content"
      and "\<not> fails E w (ReadFile ROLLBACK_LOG)"
      and "\<forall>l \<in> set (readlines content). NUL \<notin> set (strip l)"
  shows "rollback E w =
          (Inr (), w\<lparr>trace := trace w @ [ReadFile ROLLBACK_LOG]
             @ map (\<lambda>c. System (strip c)) (rev (readlines content))
             @ [Print (lit ''Rollback complete.'')]\<rparr>)"
proof -
  let ?w1 = "w\<lparr>trace := trace w @ [ReadFile ROLLBACK_LOG]\<rparr>"
  have "\<forall>c \<in> set (rev (readlines content)). NUL \<notin> set (strip c)"
    using assms(3) by simp
  from command_loop_trace [OF this, of ?w1] show ?thesis
    using assms(1,2)
    by (simp add: rollback_def read_file_def andthen_def print_def)
qed

lemma recorded_lines_reversed:
  assumes "\<forall>(src, dest) \<in> set entries. no_linebreak src \<and> no_linebreak dest"
  shows "map (\<lambda>c. System (strip c))
           (rev (readlines (concat (map (\<lambda>(src, dest). rollback_line src dest) entries))))
         = map (\<lambda>(src, dest). System (restore_instruction src dest)) (rev entries)"
proof -
  have "map (\<lambda>c. System (strip c)) (rev (map (\<lambda>(src, dest). rollback_line src dest) entries))
      = map (\<lambda>(src, dest). System (restore_instruction src dest)) (rev entries)"
    by (simp add: rev_map strip_rollback_line split_def)
  then show ?thesis
    using readlines_recorded [OF assms] by simp
qed

text \<open>
  C2, as amended. The rollback reads the rollback log and, the log holding no NUL, runs
  every line of it, stripped, in the exact reverse of the order of the lines. For every
  recorded sequence of actions \<open>A1, ..., An\<close> whose paths hold no line break (and, as
  every path, no NUL), each written to the log by \<open>log_action\<close>, these are the restoring
  instructions of \<open>An\<close> first, then \<open>An-1\<close>, down to \<open>A1\<close>.
\<close>

theorem rollback_reverse_order:
  assumes "files w (resolve E ROLLBACK_LOG) = Some content"
      and "\<not> fails E w (ReadFile ROLLBACK_LOG)"
  shows "(NUL \<notin> set content \<longrightarrow>
            rollback E w =
              (Inr (), w\<lparr>trace := trace w @ [ReadFile ROLLBACK_LOG]
                 @ map (\<lambda>c. System (strip c)) (rev (readlines content))
                 @ [Print (lit ''Rollback complete.'')]\<rparr>))
         \<and> (content = concat (map (\<lambda>(src, dest). rollback_line src dest) entries)
              \<and> (\<forall>(src, dest) \<in> set entries.
                    no_linebreak src \<and> no_linebreak dest \<and> NUL \<notin> set src \<and> NUL \<notin> set dest)
              \<longrightarrow> rollback E w =
                    (Inr (), w\<lparr>trace := trace w @ [ReadFile ROLLBACK_LOG]
                       @ map (\<lambda>(src, dest). System (restore_instruction src dest)) (rev entries)
                       @ [Print (lit ''Rollback complete.'')]\<rparr>))"
proof (intro conjI impI)
  assume "NUL \<notin> set content"
  then have "\<forall>l \<in> set (readlines content). NUL \<notin> set (strip l)"
    using lines_without_nul by blast
  from rollback_replays_lines [OF assms this]
  show "rollback E w =
          (Inr (), w\<lparr>trace := trace w @ [ReadFile ROLLBACK_LOG]
             @ map (\<lambda>c. System (strip c)) (rev (readlines content))
             @ [Print (lit ''Rollback complete.'')]\<rparr>)" .
next
  assume a: "content = concat (map (\<lambda>(src, dest). rollback_line src dest) entries)
      \<and> (\<forall>(src, dest) \<in> set entries.
            no_linebreak src \<and> no_linebreak dest \<and> NUL \<notin> set src \<and> NUL \<notin> set dest)"
  then have lb: "\<forall>(src, dest) \<in> set entries. no_linebreak src \<and> no_linebreak dest"
    by auto
  have "NUL \<notin> set content"
    using a restore_instruction_no_nul
    by (fastforce simp: rollback_line_restore NUL_def LF_def)
  then have "\<forall>l \<in> set (readlines content). NUL \<notin> set (strip l)"
    using lines_without_nul by blast
  from rollback_replays_lines [OF assms this] recorded_lines_reversed [OF lb] a
  show "rollback E w =
          (Inr (), w\<lparr>trace := trace w @ [ReadFile ROLLBACK_LOG]
             @ map (\<lambda>(src, dest). System (restore_instruction src dest)) (rev entries)
             @ [Print (lit ''Rollback complete.'')]\<rparr>)"
    by simp
qed

theorem rollback_reverse_order_witness:
  "files two_logged (resolve quiet_env ROLLBACK_LOG)
     = Some (rollback_line (lit ''/in/b'') (lit ''/in/b'') @ rollback_line (lit ''/in/a'') (lit ''/out/a''))
   \<and> no_linebreak (lit ''/in/a'') \<and> no_linebreak (lit ''/out/a'') \<and> no_linebreak (lit ''/in/b'')
   \<and> NUL \<notin> set (lit ''/in/a'') \<and> NUL \<notin> set (lit ''/out/a'') \<and> NUL \<notin> set (lit ''/in/b'')
   \<and> \<not> fails quiet_env two_logged (ReadFile ROLLBACK_LOG)
   \<and> rollback quiet_env two_logged =
       (Inr (), two_logged\<lparr>trace := trace two_logged @ [ReadFile ROLLBACK_LOG,
          System (restore_instruction (lit ''/in/a'') (lit ''/out/a'')),
          System (restore_instruction (lit ''/in/b'') (lit ''/in/b'')),
          Print (lit ''Rollback complete.'')]\<rparr>)"
proof -
  let ?entries = "[(lit ''/in/b'', lit ''/in/b''), (lit ''/in/a'', lit ''/out/a'')]"
  let ?content = "rollback_line (lit ''/in/b'') (lit ''/in/b'') @ rollback_line (lit ''/in/a'') (lit ''/out/a'')"
  have f: "files two_logged (resolve quiet_env ROLLBACK_LOG) = Some ?content"
    by code_simp
  have c: "?content = concat (map (\<lambda>(src, dest). rollback_line src dest) ?entries)"
    by simp
  have n: "no_linebreak (lit ''/in/a'')" "no_linebreak (lit ''/out/a'')" "no_linebreak (lit ''/in/b'')"
    "NUL \<notin> set (lit ''/in/a'')" "NUL \<notin> set (lit ''/out/a'')" "NUL \<notin> set (lit ''/in/b'')"
    by code_simp+
  then have h: "\<forall>(src, dest) \<in> set ?entries.
      no_linebreak src \<and> no_linebreak dest \<and> NUL \<notin> set src \<and> NUL \<notin> set dest"
    by simp
  have r: "\<not> fails quiet_env two_logged (ReadFile ROLLBACK_LOG)"
    by (simp add: quiet_env_def)
  note th = rollback_reverse_order [OF f r, of ?entries]
  from th c h have "rollback quiet_env two_logged =
       (Inr (), two_logged\<lparr>trace := trace two_logged @ [ReadFile ROLLBACK_LOG]
          @ map (\<lambda>(src, dest). System (restore_instruction src dest)) (rev ?entries)
          @ [Print (lit ''Rollback complete.'')]\<rparr>)"
    by blast
  then show ?thesis
    using f n r by simp
qed

text \<open>
  The claim as it stands fails for a path with a line feed in it. One action is recorded
  for \<open>broken_path\<close>; its entry takes two lines of the rollback log, and the rollback runs
  the two halves, the second first, and never the instruction that restores the file.
\<close>

theorem rollback_broken_line_counterexample:
  "files broken_logged (resolve quiet_env ROLLBACK_LOG)
     = Some (rollback_line broken_path (lit ''/out/x''))
   \<and> fst (rollback quiet_env broken_logged) = Inr ()
   \<and> drop (length (trace broken_logged)) (trace (snd (rollback quiet_env broken_logged)))
       = [ReadFile ROLLBACK_LOG,
          System (lit ''b'' @ [quote]),
          System (lit ''mv '' @ [quote] @ lit ''/out/x'' @ [quote] @ lit '' '' @ [quote] @ lit ''/in/a''),
          Print (lit ''Rollback complete.'')]
   \<and> System (restore_instruction (lit ''/out/x'') broken_path)
       \<notin> set (trace (snd (rollback quiet_env broken_logged)))
   \<and> System (restore_instruction broken_path (lit ''/out/x''))
       \<notin> set (trace (snd (rollback quiet_env broken_logged)))"
  by code_simp

lemma copy_step_unfold:
  "copy_step E p framework =
     andthen (ensure_dir E (dest_folder_of framework))
       (\<lambda>_. andthen (copy2 E p (dest_path_of p framework))
          (\<lambda>_. andthen (assign_joplin_tags E p [lit ''framework:'' @ framework])
             (\<lambda>_. log_action E (lit ''COPY'') p (dest_path_of p framework))))"
  by (simp add: copy_step_def dest_path_of_def dest_folder_of_def Let_def)

lemma logs_differ: "resolve E LOG_FILE \<noteq> resolve E ROLLBACK_LOG"
  by (simp add: resolve_def path_join_def LOG_FILE_def ROLLBACK_LOG_def sep_def lit_def)

subsection \<open>What each operation adds to the trace\<close>

lemma perform_Inr:
  "perform E op e effect w = (Inr u, w') \<Longrightarrow> w' = (effect w)\<lparr>trace := trace w @ [op]\<rparr>"
  by (auto simp: perform_def split: if_splits)

lemma perform_total:
  "\<not> fails E w op \<Longrightarrow> perform E op e effect w = (Inr (), (effect w)\<lparr>trace := trace w @ [op]\<rparr>)"
  by (simp add: perform_def)

lemma ensure_dir_Inr:
  "ensure_dir E d w = (Inr u, w') \<Longrightarrow>
     \<exists>ops. trace w' = trace w @ ops \<and> filter is_copy ops = [] \<and> filter is_audit ops = []"
  by (auto simp: ensure_dir_def makedirs_def dest: perform_Inr split: if_splits)

lemma copy2_Inr:
  "copy2 E src dst w = (Inr u, w') \<Longrightarrow> trace w' = trace w @ [Copy2 src dst]"
  by (auto simp: copy2_def Let_def dest: perform_Inr split: if_splits option.splits)

lemma tag_loop_trace:
  "tag_loop E tags note w = (r, w') \<Longrightarrow>
     \<exists>ops. trace w' = trace w @ ops \<and> (\<forall>op \<in> set ops. is_joplin op)
       \<and> files w' = files w \<and> dirs w' = dirs w"
proof (induction tags arbitrary: w)
  case Nil
  then show ?case by (simp add: ok_def)
next
  case (Cons tag tags)
  show ?case
  proof (cases "fails E w (CreateTag tag)")
    case True
    with Cons.prems show ?thesis by (simp add: andthen_def perform_def)
  next
    case False
    let ?w1 = "w\<lparr>trace := trace w @ [CreateTag tag]\<rparr>"
    show ?thesis
    proof (cases "fails E ?w1 (AddTagToNote tag note)")
      case True
      with False Cons.prems have "w' = ?w1" by (simp add: andthen_def perform_def)
      then have "trace w' = trace w @ [CreateTag tag]" "files w' = files w" "dirs w' = dirs w"
        by simp_all
      then show ?thesis by force
    next
      case f2: False
      let ?w2 = "?w1\<lparr>trace := trace ?w1 @ [AddTagToNote tag note]\<rparr>"
      from False f2 Cons.prems have "tag_loop E tags note ?w2 = (r, w')"
        by (simp add: andthen_def perform_def)
      from Cons.IH [OF this] obtain ops where
        "trace w' = trace ?w2 @ ops" "\<forall>op \<in> set ops. is_joplin op"
        "files w' = files w" "dirs w' = dirs w" by auto
      then have "trace w' = trace w @ (CreateTag tag # AddTagToNote tag note # ops)"
        "\<forall>op \<in> set (CreateTag tag # AddTagToNote tag note # ops). is_joplin op"
        by simp_all
      with \<open>files w' = files w\<close> \<open>dirs w' = dirs w\<close> show ?thesis by blast
    qed
  qed
qed

lemma assign_joplin_tags_trace:
  assumes "assign_joplin_tags E p tags w = (r, w')"
  shows "\<exists>ops. trace w' = trace w @ ops \<and> (\<forall>op \<in> set ops. is_joplin op)
           \<and> files w' = files w \<and> dirs w' = dirs w"
proof (cases "fails E w (CreateNote (basename p) (lit ''File: '' @ p @ [LF] @ lit ''Located in: '' @ dirname p))")
  case True
  with assms show ?thesis
    by (simp add: assign_joplin_tags_def andthen_def perform_def)
next
  case False
  let ?op = "CreateNote (basename p) (lit ''File: '' @ p @ [LF] @ lit ''Located in: '' @ dirname p)"
  let ?w1 = "w\<lparr>trace := trace w @ [?op]\<rparr>"
  from False assms have "tag_loop E tags (note_id E w) ?w1 = (r, w')"
    by (simp add: assign_joplin_tags_def andthen_def perform_def)
  from tag_loop_trace [OF this] obtain ops where
    "trace w' = trace ?w1 @ ops" "\<forall>op \<in> set ops. is_joplin op"
    "files w' = files w" "dirs w' = dirs w" by auto
  then have "trace w' = trace w @ (?op # ops)" "\<forall>op \<in> set (?op # ops). is_joplin op"
    by simp_all
  with \<open>files w' = files w\<close> \<open>dirs w' = dirs w\<close> show ?thesis by blast
qed

lemma joplin_ops_filters:
  "\<forall>op \<in> set ops. is_joplin op \<Longrightarrow>
     filter is_copy ops = [] \<and> filter is_audit ops = [] \<and> filter is_append ops = []"
proof (induction ops)
  case Nil
  then show ?case by simp
next
  case (Cons op ops)
  then show ?case by (cases op) auto
qed

lemma append_file_Inr:
  "append_file E path text w = (Inr u, w') \<Longrightarrow>
     trace w' = trace w @ [Append path text] \<and> dirs w' = dirs w
     \<and> files w' = (files w)(resolve E path \<mapsto> file_text w (resolve E path) @ text)"
  by (auto simp: append_file_def Let_def file_text_def dest!: perform_Inr
      split: if_splits option.splits)


lemma log_action_Inr:
  assumes "log_action E action src dest w = (Inr u, w')"
  shows "trace w' = trace w @ [Append LOG_FILE (audit_entry (now E w) action src dest),
                               Append ROLLBACK_LOG (restore_instruction src dest @ [LF])]"
    and "files w' = (files w)
           (resolve E LOG_FILE \<mapsto> file_text w (resolve E LOG_FILE) @ audit_entry (now E w) action src dest,
            resolve E ROLLBACK_LOG \<mapsto> file_text w (resolve E ROLLBACK_LOG) @ restore_instruction src dest @ [LF])"
    and "dirs w' = dirs w"
proof -
  from assms obtain w1 where
    a1: "append_file E LOG_FILE (audit_entry (now E w) action src dest) w = (Inr (), w1)" and
    a2: "append_file E ROLLBACK_LOG (restore_instruction src dest @ [LF]) w1 = (Inr u, w')"
    unfolding log_action_def audit_line_entry rollback_line_restore by (auto dest!: andthen_InrD)
  note f1 = append_file_Inr [OF a1] and f2 = append_file_Inr [OF a2]
  show "trace w' = trace w @ [Append LOG_FILE (audit_entry (now E w) action src dest),
                               Append ROLLBACK_LOG (restore_instruction src dest @ [LF])]"
    using f1 f2 by simp
  show "dirs w' = dirs w" using f1 f2 by simp
  have "file_text w1 (resolve E ROLLBACK_LOG) = file_text w (resolve E ROLLBACK_LOG)"
    using f1 logs_differ [of E] by (simp add: file_text_def)
  then show "files w' = (files w)
           (resolve E LOG_FILE \<mapsto> file_text w (resolve E LOG_FILE) @ audit_entry (now E w) action src dest,
            resolve E ROLLBACK_LOG \<mapsto> file_text w (resolve E ROLLBACK_LOG) @ restore_instruction src dest @ [LF])"
    using f1 f2 by simp
qed


lemma log_action_total:
  assumes "\<forall>w op. \<not> fails E w op"
      and "resolve E LOG_FILE \<notin> dirs w" and "resolve E ROLLBACK_LOG \<notin> dirs w"
  shows "\<exists>w'. log_action E action src dest w = (Inr (), w')"
  using assms by (simp add: log_action_def andthen_def append_file_def perform_def Let_def)







lemma append_file_trace:
  "append_file E path text w = (r, w') \<Longrightarrow>
     \<exists>ops. trace w' = trace w @ ops \<and> filter is_copy ops = []"
  by (auto simp: append_file_def Let_def perform_def split: if_splits)

lemma andthen_trace:
  assumes m: "\<And>w r w'. m w = (r, w') \<Longrightarrow> \<exists>ops. trace w' = trace w @ ops \<and> filter is_copy ops = []"
      and f: "\<And>x w r w'. f x w = (r, w') \<Longrightarrow> \<exists>ops. trace w' = trace w @ ops \<and> filter is_copy ops = []"
      and r: "andthen m f w = (r, w')"
  shows "\<exists>ops. trace w' = trace w @ ops \<and> filter is_copy ops = []"
proof (cases "m w")
  case (Pair r1 w1)
  from m [OF Pair] obtain ops1 where o1: "trace w1 = trace w @ ops1" "filter is_copy ops1 = []"
    by blast
  show ?thesis
  proof (cases r1)
    case (Inl e)
    with Pair r have "w' = w1" by (simp add: andthen_def)
    with o1 show ?thesis by blast
  next
    case (Inr x)
    with Pair r have "f x w1 = (r, w')" by (simp add: andthen_def)
    from f [OF this] obtain ops2 where "trace w' = trace w1 @ ops2" "filter is_copy ops2 = []"
      by blast
    with o1 have "trace w' = trace w @ (ops1 @ ops2)" "filter is_copy (ops1 @ ops2) = []"
      by simp_all
    then show ?thesis by blast
  qed
qed

lemma log_action_trace:
  "log_action E action src dest w = (r, w') \<Longrightarrow>
     \<exists>ops. trace w' = trace w @ ops \<and> filter is_copy ops = []"
  unfolding log_action_def
  by (erule andthen_trace [rotated 2]) (auto dest: append_file_trace)

lemma assign_joplin_tags_no_copy:
  "assign_joplin_tags E p tags w = (r, w') \<Longrightarrow>
     \<exists>ops. trace w' = trace w @ ops \<and> filter is_copy ops = []"
  using assign_joplin_tags_trace joplin_ops_filters by blast

lemma assign_joplin_tags_total:
  assumes "\<forall>w op. \<not> fails E w op"
  shows "\<exists>w'. assign_joplin_tags E p [tag] w = (Inr (), w') \<and> dirs w' = dirs w"
  using assms by (simp add: assign_joplin_tags_def andthen_def perform_def ok_def)

lemma classify_file_unmatched:
  "matched_frameworks E p = [] \<Longrightarrow>
     classify_file E p =
       andthen (assign_joplin_tags E p [lit ''status:Unclassified''])
         (\<lambda>_. log_action E (lit ''LEAVE'') p p)"
  by (simp add: classify_file_def)

lemma classify_file_matched:
  "matched_frameworks E p \<noteq> [] \<Longrightarrow> classify_file E p = copy_loop E p (matched_frameworks E p)"
  by (simp add: classify_file_def)

text \<open>
  C4, as amended. For a file whose name matches no framework, classification performs no
  copy, whatever happens; a classification that returns has written exactly one audit
  entry, a \<open>LEAVE\<close> whose destination is the source path. It returns whenever the
  environment refuses no operation and neither log path is a directory.
\<close>

theorem unmatched_file_leave:
  assumes "matched_frameworks E p = []"
  shows "(\<exists>ops. trace (snd (classify_file E p w)) = trace w @ ops \<and> filter is_copy ops = []
            \<and> (fst (classify_file E p w) = Inr () \<longrightarrow>
                 (\<exists>stamp. filter is_audit ops = [Append LOG_FILE (audit_entry stamp (lit ''LEAVE'') p p)])))
         \<and> ((\<forall>w op. \<not> fails E w op) \<and> resolve E LOG_FILE \<notin> dirs w \<and> resolve E ROLLBACK_LOG \<notin> dirs w
               \<longrightarrow> fst (classify_file E p w) = Inr ())"
proof
  let ?m = "assign_joplin_tags E p [lit ''status:Unclassified'']"
  let ?c = "classify_file E p w"
  note cf = classify_file_unmatched [OF assms]
  show "\<exists>ops. trace (snd ?c) = trace w @ ops \<and> filter is_copy ops = []
            \<and> (fst ?c = Inr () \<longrightarrow>
                 (\<exists>stamp. filter is_audit ops = [Append LOG_FILE (audit_entry stamp (lit ''LEAVE'') p p)]))"
  proof (cases "fst ?c")
    case (Inl e)
    have "?c = (fst ?c, snd ?c)" by simp
    then have "\<exists>ops. trace (snd ?c) = trace w @ ops \<and> filter is_copy ops = []"
      unfolding cf
      by (rule andthen_trace [rotated 2]) (auto dest: assign_joplin_tags_no_copy log_action_trace)
    with Inl show ?thesis by auto
  next
    case (Inr u)
    then obtain w' where c: "?c = (Inr (), w')" by (cases ?c) auto
    then have "andthen ?m (\<lambda>_. log_action E (lit ''LEAVE'') p p) w = (Inr (), w')"
      by (simp add: cf)
    from andthen_InrD [OF this] obtain w1 where
      a: "?m w = (Inr (), w1)" and l: "log_action E (lit ''LEAVE'') p p w1 = (Inr (), w')"
      by auto
    from assign_joplin_tags_trace [OF a] obtain ops where
      ops: "trace w1 = trace w @ ops" "\<forall>op \<in> set ops. is_joplin op" by blast
    let ?new = "ops @ [Append LOG_FILE (audit_entry (now E w1) (lit ''LEAVE'') p p),
                      Append ROLLBACK_LOG (restore_instruction p p @ [LF])]"
    have "trace (snd ?c) = trace w @ ?new"
      using log_action_Inr(1) [OF l] ops(1) c by simp
    moreover have "filter is_copy ?new = []"
      using joplin_ops_filters [OF ops(2)] by simp
    moreover have "filter is_audit ?new = [Append LOG_FILE (audit_entry (now E w1) (lit ''LEAVE'') p p)]"
      using joplin_ops_filters [OF ops(2)] by (simp add: LOG_FILE_def ROLLBACK_LOG_def lit_def)
    ultimately show ?thesis by blast
  qed
  show "(\<forall>w op. \<not> fails E w op) \<and> resolve E LOG_FILE \<notin> dirs w \<and> resolve E ROLLBACK_LOG \<notin> dirs w
          \<longrightarrow> fst ?c = Inr ()"
  proof
    assume h: "(\<forall>w op. \<not> fails E w op) \<and> resolve E LOG_FILE \<notin> dirs w \<and> resolve E ROLLBACK_LOG \<notin> dirs w"
    then obtain w1 where a: "?m w = (Inr (), w1)" "dirs w1 = dirs w"
      using assign_joplin_tags_total [of E p _ w] by blast
    with h obtain w' where "log_action E (lit ''LEAVE'') p p w1 = (Inr (), w')"
      using log_action_total [of E w1 "lit ''LEAVE''" p p] by auto
    with a show "fst ?c = Inr ()"
      unfolding cf by (simp add: andthen_def)
  qed
qed

lemma matched_b: "matched_frameworks quiet_env (lit ''/in/b'') = []"
  by code_simp

theorem unmatched_file_leave_witness:
  "matched_frameworks quiet_env (lit ''/in/b'') = []
   \<and> resolve quiet_env LOG_FILE \<notin> dirs (one_file (lit ''/in/b''))
   \<and> resolve quiet_env ROLLBACK_LOG \<notin> dirs (one_file (lit ''/in/b''))
   \<and> fst (classify_file quiet_env (lit ''/in/b'') (one_file (lit ''/in/b''))) = Inr ()
   \<and> (\<exists>ops stamp. trace (snd (classify_file quiet_env (lit ''/in/b'') (one_file (lit ''/in/b''))))
          = trace (one_file (lit ''/in/b'')) @ ops
        \<and> filter is_copy ops = []
        \<and> filter is_audit ops
            = [Append LOG_FILE (audit_entry stamp (lit ''LEAVE'') (lit ''/in/b'') (lit ''/in/b''))])"
proof -
  have d: "resolve quiet_env LOG_FILE \<notin> dirs (one_file (lit ''/in/b''))"
    "resolve quiet_env ROLLBACK_LOG \<notin> dirs (one_file (lit ''/in/b''))"
    by (simp_all add: one_file_def)
  show ?thesis
    using unmatched_file_leave [OF matched_b, of "one_file (lit ''/in/b'')"]
      quiet_env_never_fails d matched_b
    by auto
qed

text \<open>
  The claim as it stands fails when the note service is down: the unmatched file is not
  copied, and no \<open>LEAVE\<close> entry is written either, since the classification raises before
  it logs.
\<close>

theorem unmatched_file_no_entry_counterexample:
  "matched_frameworks joplin_down (lit ''/in/b'') = []
   \<and> fst (classify_file joplin_down (lit ''/in/b'') (one_file (lit ''/in/b''))) = Inl JoplinError
   \<and> trace (snd (classify_file joplin_down (lit ''/in/b'') (one_file (lit ''/in/b'')))) = []
   \<and> files (snd (classify_file joplin_down (lit ''/in/b'') (one_file (lit ''/in/b''))))
         (resolve joplin_down LOG_FILE) = None"
  by code_simp

lemma copy_step_Inr:
  assumes "copy_step E p framework w = (Inr u, w')"
  shows "\<exists>ops stamp. trace w' = trace w @ ops
           \<and> filter is_copy ops = [Copy2 p (dest_path_of p framework)]
           \<and> filter is_audit ops = [Append LOG_FILE (audit_entry stamp (lit ''COPY'') p (dest_path_of p framework))]"
proof -
  let ?dest = "dest_path_of p framework"
  from assms obtain w1 w2 w3 where
    e: "ensure_dir E (dest_folder_of framework) w = (Inr (), w1)" and
    c: "copy2 E p ?dest w1 = (Inr (), w2)" and
    a: "assign_joplin_tags E p [lit ''framework:'' @ framework] w2 = (Inr (), w3)" and
    l: "log_action E (lit ''COPY'') p ?dest w3 = (Inr u, w')"
    unfolding copy_step_unfold by (auto dest!: andthen_InrD)
  from ensure_dir_Inr [OF e] obtain ops1 where
    o1: "trace w1 = trace w @ ops1" "filter is_copy ops1 = []" "filter is_audit ops1 = []"
    by blast
  from assign_joplin_tags_trace [OF a] obtain ops3 where
    o3: "trace w3 = trace w2 @ ops3" "\<forall>op \<in> set ops3. is_joplin op"
    by blast
  let ?ops = "ops1 @ [Copy2 p ?dest] @ ops3
      @ [Append LOG_FILE (audit_entry (now E w3) (lit ''COPY'') p ?dest), Append ROLLBACK_LOG (restore_instruction p ?dest @ [LF])]"
  have "trace w' = trace w @ ?ops"
    using o1(1) copy2_Inr [OF c] o3(1) log_action_Inr(1) [OF l] by simp
  moreover have "filter is_copy ?ops = [Copy2 p ?dest]"
    using o1(2) joplin_ops_filters [OF o3(2)] by simp
  moreover have "filter is_audit ?ops = [Append LOG_FILE (audit_entry (now E w3) (lit ''COPY'') p ?dest)]"
    using o1(3) joplin_ops_filters [OF o3(2)] by (simp add: LOG_FILE_def ROLLBACK_LOG_def lit_def)
  ultimately show ?thesis by blast
qed

lemma copy_loop_Inr:
  "copy_loop E p frameworks w = (Inr u, w') \<Longrightarrow>
     \<exists>ops. trace w' = trace w @ ops
       \<and> filter is_copy ops = map (\<lambda>framework. Copy2 p (dest_path_of p framework)) frameworks
       \<and> list_all2 (\<lambda>op framework. \<exists>stamp.
             op = Append LOG_FILE (audit_entry stamp (lit ''COPY'') p (dest_path_of p framework)))
           (filter is_audit ops) frameworks"
proof (induction frameworks arbitrary: w)
  case Nil
  then show ?case by (simp add: ok_def)
next
  case (Cons framework frameworks)
  from Cons.prems obtain w1 where
    s: "copy_step E p framework w = (Inr (), w1)" and
    r: "copy_loop E p frameworks w1 = (Inr u, w')"
    by (auto dest!: andthen_InrD)
  from copy_step_Inr [OF s] obtain ops1 stamp where
    o1: "trace w1 = trace w @ ops1"
      "filter is_copy ops1 = [Copy2 p (dest_path_of p framework)]"
      "filter is_audit ops1 = [Append LOG_FILE (audit_entry stamp (lit ''COPY'') p (dest_path_of p framework))]"
    by blast
  from Cons.IH [OF r] obtain ops2 where
    o2: "trace w' = trace w1 @ ops2"
      "filter is_copy ops2 = map (\<lambda>framework. Copy2 p (dest_path_of p framework)) frameworks"
      "list_all2 (\<lambda>op framework. \<exists>stamp.
             op = Append LOG_FILE (audit_entry stamp (lit ''COPY'') p (dest_path_of p framework)))
           (filter is_audit ops2) frameworks"
    by blast
  have "trace w' = trace w @ (ops1 @ ops2)"
    using o1(1) o2(1) by simp
  moreover have "filter is_copy (ops1 @ ops2)
      = map (\<lambda>framework. Copy2 p (dest_path_of p framework)) (framework # frameworks)"
    using o1(2) o2(2) by simp
  moreover have "list_all2 (\<lambda>op framework. \<exists>stamp.
             op = Append LOG_FILE (audit_entry stamp (lit ''COPY'') p (dest_path_of p framework)))
           (filter is_audit (ops1 @ ops2)) (framework # frameworks)"
    using o1(3) o2(3) by auto
  ultimately show ?case by blast
qed

subsection \<open>The source file is kept\<close>

lemma kept_refl: "kept E s w w"
  by (auto simp: kept_def split: option.splits)

lemma kept_trans: "kept E s w w1 \<Longrightarrow> kept E s w1 w2 \<Longrightarrow> kept E s w w2"
  by (fastforce simp: kept_def split: option.splits)

lemma kept_same_files: "files w' s = files w s \<Longrightarrow> kept E s w w'"
  by (auto simp: kept_def split: option.splits)

lemma andthen_kept:
  assumes "\<And>w. kept E s w (snd (m w))" and "\<And>x w. kept E s w (snd (f x w))"
  shows "kept E s w (snd (andthen m f w))"
proof (cases "m w")
  case (Pair r w1)
  have k1: "kept E s w w1" using assms(1) [of w] Pair by simp
  show ?thesis
  proof (cases r)
    case (Inl e)
    with Pair k1 show ?thesis by (simp add: andthen_def)
  next
    case (Inr x)
    with Pair have "andthen m f w = f x w1" by (simp add: andthen_def)
    with k1 assms(2) [of w1 x] show ?thesis by (auto intro: kept_trans)
  qed
qed

lemma ensure_dir_kept: "kept E s w (snd (ensure_dir E d w))"
  by (auto simp: ensure_dir_def makedirs_def perform_def intro: kept_same_files)

lemma copy2_kept: "kept E (resolve E src) w (snd (copy2 E src dst w))"
  by (auto simp: copy2_def Let_def perform_def intro!: kept_same_files split: option.splits)

lemma assign_joplin_tags_kept: "kept E s w (snd (assign_joplin_tags E p tags w))"
proof -
  obtain r w' where "assign_joplin_tags E p tags w = (r, w')" by (cases "assign_joplin_tags E p tags w")
  with assign_joplin_tags_trace [OF this] show ?thesis
    by (auto intro: kept_same_files)
qed

lemma append_file_kept:
  "path = LOG_FILE \<or> path = ROLLBACK_LOG \<Longrightarrow> kept E s w (snd (append_file E path text w))"
  by (auto simp: append_file_def Let_def perform_def kept_def split: option.splits)

lemma log_action_kept: "kept E s w (snd (log_action E action src dest w))"
  unfolding log_action_def
  by (intro andthen_kept append_file_kept) simp_all

lemma copy_step_kept: "kept E (resolve E p) w (snd (copy_step E p framework w))"
  unfolding copy_step_unfold
  by (intro andthen_kept ensure_dir_kept copy2_kept assign_joplin_tags_kept log_action_kept)

lemma copy_loop_kept: "kept E (resolve E p) w (snd (copy_loop E p frameworks w))"
proof (induction frameworks arbitrary: w)
  case Nil
  show ?case by (simp add: ok_def kept_refl)
next
  case (Cons framework frameworks)
  show ?case
    unfolding copy_loop.simps
    by (intro andthen_kept copy_step_kept Cons.IH)
qed

lemma classify_file_kept: "kept E (resolve E p) w (snd (classify_file E p w))"
proof (cases "matched_frameworks E p = []")
  case True
  show ?thesis
    unfolding classify_file_unmatched [OF True]
    by (intro andthen_kept assign_joplin_tags_kept log_action_kept)
next
  case False
  then show ?thesis
    by (simp add: classify_file_matched copy_loop_kept)
qed

text \<open>
  C6, as amended. Classification never deletes or moves the file at \<open>file_path\<close>:
  whatever happens, the file is still there afterwards and its old content is a prefix of
  its content. The content is unchanged unless \<open>file_path\<close> is the audit log or the
  rollback log itself.
\<close>

theorem source_file_kept:
  assumes "files w (resolve E p) = Some content"
  shows "\<exists>suffix. files (snd (classify_file E p w)) (resolve E p) = Some (content @ suffix)
           \<and> (resolve E p \<noteq> resolve E LOG_FILE \<and> resolve E p \<noteq> resolve E ROLLBACK_LOG
                 \<longrightarrow> suffix = [])"
  using classify_file_kept [of E p w] assms by (simp add: kept_def)

theorem source_file_kept_witness:
  "files (one_file sample_file) (resolve quiet_env sample_file) = Some (lit ''data'')
   \<and> resolve quiet_env sample_file \<noteq> resolve quiet_env LOG_FILE
   \<and> resolve quiet_env sample_file \<noteq> resolve quiet_env ROLLBACK_LOG
   \<and> files (snd (classify_file quiet_env sample_file (one_file sample_file)))
        (resolve quiet_env sample_file) = Some (lit ''data'')"
proof -
  have f: "files (one_file sample_file) (resolve quiet_env sample_file) = Some (lit ''data'')"
    by code_simp
  have n: "resolve quiet_env sample_file \<noteq> resolve quiet_env LOG_FILE"
    "resolve quiet_env sample_file \<noteq> resolve quiet_env ROLLBACK_LOG"
    by code_simp+
  show ?thesis
    using source_file_kept [OF f] f n by auto
qed

text \<open>
  The claim without the exception fails: started in \<open>/run\<close>, the script classifies
  \<open>/run/classification_log.txt\<close>, its own audit log. No keyword matches the name, and the
  \<open>LEAVE\<close> entry is appended to the very file that was to stay unchanged.
\<close>

theorem source_file_changed_counterexample:
  "matched_frameworks quiet_env (lit ''/run/classification_log.txt'') = []
   \<and> resolve quiet_env (lit ''/run/classification_log.txt'') = resolve quiet_env LOG_FILE
   \<and> files (one_file (lit ''/run/classification_log.txt'')) (resolve quiet_env (lit ''/run/classification_log.txt''))
       = Some (lit ''data'')
   \<and> fst (classify_file quiet_env (lit ''/run/classification_log.txt'') (one_file (lit ''/run/classification_log.txt'')))
       = Inr ()
   \<and> files (snd (classify_file quiet_env (lit ''/run/classification_log.txt'') (one_file (lit ''/run/classification_log.txt''))))
         (resolve quiet_env (lit ''/run/classification_log.txt''))
       = Some (lit ''data'' @ audit_line (lit ''T'') (lit ''LEAVE'') (lit ''/run/classification_log.txt'') (lit ''/run/classification_log.txt''))
   \<and> files (snd (classify_file quiet_env (lit ''/run/classification_log.txt'') (one_file (lit ''/run/classification_log.txt''))))
         (resolve quiet_env (lit ''/run/classification_log.txt''))
       \<noteq> files (one_file (lit ''/run/classification_log.txt'')) (resolve quiet_env (lit ''/run/classification_log.txt''))"
  by code_simp

subsection \<open>The fan-out returns\<close>

lemma matched_in_catalog:
  "framework \<in> set (matched_frameworks E p) \<Longrightarrow> framework \<in> set (map fst FRAMEWORKS)"
  by (auto simp: matched_frameworks_def match_loop_filter)

lemma catalog_ids_plain:
  "framework \<in> set (map fst FRAMEWORKS) \<Longrightarrow>
     framework \<noteq> [] \<and> sep \<notin> set framework \<and> last framework \<noteq> of_char (CHR ''t'')"
  by (auto simp: FRAMEWORKS_def sep_def lit_def)

lemma matched_plain:
  "framework \<in> set (matched_frameworks E p) \<Longrightarrow>
     framework \<noteq> [] \<and> sep \<notin> set framework \<and> last framework \<noteq> of_char (CHR ''t'')"
  using matched_in_catalog catalog_ids_plain by blast

lemma basename_no_sep: "sep \<notin> set (basename p)"
proof
  assume "sep \<in> set (basename p)"
  then have "sep \<in> set (takeWhile (\<lambda>c. c \<noteq> sep) (rev p))"
    by (simp add: basename_def)
  then show False
    by (auto dest: set_takeWhileD)
qed

lemma dest_path_of_eq:
  assumes "framework \<noteq> []" "sep \<notin> set framework"
  shows "dest_path_of p framework = copy_target p framework"
proof -
  have "basename p \<noteq> [] \<Longrightarrow> hd (basename p) \<noteq> sep"
    using basename_no_sep [of p] by (cases "basename p") auto
  moreover have "last (DEST_DIR @ lit ''/'' @ framework) \<noteq> sep"
    using assms by (cases framework rule: rev_cases) auto
  ultimately show ?thesis
    by (auto simp: dest_path_of_def dest_folder_of_def copy_target_def path_join_def sep_def
        lit_def)
qed

lemma dirname_dest_path:
  assumes "framework \<noteq> []" "sep \<notin> set framework"
  shows "dirname (dest_path_of p framework) = dest_folder_of framework"
proof -
  let ?a = "dest_folder_of framework"
  have eq: "dest_path_of p framework = ?a @ sep # basename p"
    by (simp add: dest_path_of_eq [OF assms] copy_target_def dest_folder_of_def sep_def lit_def)
  have l: "last ?a \<noteq> sep" "?a \<noteq> []"
    using assms by (cases framework rule: rev_cases; auto simp: dest_folder_of_def)+
  have "dropWhile (\<lambda>c. c \<noteq> sep) (rev (basename p) @ sep # rev ?a) = sep # rev ?a"
    using basename_no_sep [of p] by (simp add: dropWhile_append)
  then have h: "rev (dropWhile (\<lambda>c. c \<noteq> sep) (rev (?a @ sep # basename p))) = ?a @ [sep]"
    by simp
  have n: "?a @ [sep] \<noteq> replicate (length (?a @ [sep])) sep"
  proof
    assume "?a @ [sep] = replicate (length (?a @ [sep])) sep"
    then have "set (?a @ [sep]) \<subseteq> {sep}"
      by (metis set_replicate_conv_if empty_subsetI subset_refl)
    with l show False
      by (cases ?a rule: rev_cases) auto
  qed
  have "dropWhile (\<lambda>c. c = sep) (rev ?a) = rev ?a"
    using l by (cases ?a rule: rev_cases) auto
  then show ?thesis
    using n unfolding eq dirname_def h Let_def by simp
qed

lemma resolve_absolute: "p \<noteq> [] \<Longrightarrow> hd p = sep \<Longrightarrow> resolve E p = p"
  by (simp add: resolve_def path_join_def)

lemma resolve_dest_folder: "resolve E (dest_folder_of framework) = dest_folder_of framework"
  by (rule resolve_absolute)
    (simp_all add: dest_folder_of_def DEST_DIR_def BASE_DIR_def sep_def lit_def)

lemma resolve_dest_path:
  assumes "framework \<noteq> []" "sep \<notin> set framework"
  shows "resolve E (dest_path_of p framework) = dest_path_of p framework"
  by (rule resolve_absolute)
    (simp_all add: dest_path_of_eq [OF assms] copy_target_def DEST_DIR_def BASE_DIR_def sep_def
      lit_def)

lemma dest_folder_not_dest_path:
  assumes "framework \<noteq> []" "sep \<notin> set framework" "sep \<notin> set other"
  shows "dest_folder_of other \<noteq> dest_path_of p framework"
proof
  assume "dest_folder_of other = dest_path_of p framework"
  then have "other = framework @ lit ''/'' @ basename p"
    by (simp add: dest_path_of_eq [OF assms(1,2)] copy_target_def dest_folder_of_def)
  then have "sep \<in> set other" by (simp add: sep_def lit_def)
  with assms(3) show False by simp
qed

lemma last_log_paths:
  "last (resolve E LOG_FILE) = of_char (CHR ''t'')"
  "last (resolve E ROLLBACK_LOG) = of_char (CHR ''t'')"
  by (simp_all add: resolve_def path_join_def LOG_FILE_def ROLLBACK_LOG_def sep_def lit_def)

lemma dest_folder_not_log:
  assumes "framework \<noteq> []" "last framework \<noteq> of_char (CHR ''t'')"
  shows "dest_folder_of framework \<noteq> resolve E LOG_FILE"
    and "dest_folder_of framework \<noteq> resolve E ROLLBACK_LOG"
proof -
  have "last (dest_folder_of framework) \<noteq> of_char (CHR ''t'')"
    using assms by (simp add: dest_folder_of_def)
  then show "dest_folder_of framework \<noteq> resolve E LOG_FILE"
    and "dest_folder_of framework \<noteq> resolve E ROLLBACK_LOG"
    using last_log_paths [of E] by auto
qed

lemma ensure_dir_total:
  assumes "\<forall>w op. \<not> fails E w op"
  shows "\<exists>w'. ensure_dir E d w = (Inr (), w') \<and> files w' = files w
           \<and> dirs w' \<subseteq> insert (resolve E d) (dirs w)
           \<and> (files w (resolve E d) = None \<longrightarrow> resolve E d \<in> dirs w')"
  using assms by (auto simp: ensure_dir_def makedirs_def perform_def path_exists_def)

lemma copy2_total:
  assumes "\<forall>w op. \<not> fails E w op"
      and "files w (resolve E src) \<noteq> None"
      and "resolve E dst \<notin> dirs w"
      and "resolve E src \<noteq> resolve E dst"
      and "dirname (resolve E dst) \<in> dirs w"
  shows "\<exists>w'. copy2 E src dst w = (Inr (), w') \<and> dirs w' = dirs w
           \<and> (\<forall>q. q \<noteq> resolve E dst \<longrightarrow> files w' q = files w q)"
  using assms by (auto simp: copy2_def perform_def Let_def)

lemma copy_step_total:
  assumes nofail: "\<forall>w op. \<not> fails E w op"
      and plain: "framework \<noteq> []" "sep \<notin> set framework" "last framework \<noteq> of_char (CHR ''t'')"
      and src: "files w (resolve E p) \<noteq> None"
      and dst: "dest_path_of p framework \<notin> dirs w" "resolve E p \<noteq> dest_path_of p framework"
        "files w (dest_folder_of framework) = None"
      and logs: "resolve E LOG_FILE \<notin> dirs w" "resolve E ROLLBACK_LOG \<notin> dirs w"
  shows "\<exists>w'. copy_step E p framework w = (Inr (), w')
           \<and> dirs w' \<subseteq> insert (dest_folder_of framework) (dirs w)
           \<and> (\<forall>q. q \<noteq> dest_path_of p framework \<and> q \<noteq> resolve E LOG_FILE
                  \<and> q \<noteq> resolve E ROLLBACK_LOG \<longrightarrow> files w' q = files w q)"
proof -
  let ?dest = "dest_path_of p framework"
  note rd = resolve_dest_path [OF plain(1,2), of E p]
  from ensure_dir_total [OF nofail, of "dest_folder_of framework" w] dst(3) obtain w1 where
    e: "ensure_dir E (dest_folder_of framework) w = (Inr (), w1)" "files w1 = files w"
      "dirs w1 \<subseteq> insert (dest_folder_of framework) (dirs w)"
      "dest_folder_of framework \<in> dirs w1"
    by (auto simp: resolve_dest_folder)
  have "resolve E ?dest \<notin> dirs w1"
    using e(3) dst(1) dest_folder_not_dest_path [OF plain(1,2) plain(2), of p] rd by auto
  moreover have "dirname (resolve E ?dest) \<in> dirs w1"
    using e(4) rd dirname_dest_path [OF plain(1,2), of p] by simp
  ultimately obtain w2 where
    c: "copy2 E p ?dest w1 = (Inr (), w2)" "dirs w2 = dirs w1"
      "\<forall>q. q \<noteq> ?dest \<longrightarrow> files w2 q = files w1 q"
    using copy2_total [OF nofail, of w1 p ?dest] src dst(2) e(2) rd by auto
  from assign_joplin_tags_total [OF nofail, of p "lit ''framework:'' @ framework" w2] obtain w3 where
    a: "assign_joplin_tags E p [lit ''framework:'' @ framework] w2 = (Inr (), w3)"
      "dirs w3 = dirs w2"
    by blast
  have f3: "files w3 = files w2"
    using assign_joplin_tags_trace [OF a(1)] by blast
  have "resolve E LOG_FILE \<notin> dirs w3" "resolve E ROLLBACK_LOG \<notin> dirs w3"
    using a(2) c(2) e(3) logs dest_folder_not_log [OF plain(1,3), of E] by auto
  from log_action_total [OF nofail this, of "lit ''COPY''" p ?dest] obtain w4 where
    l: "log_action E (lit ''COPY'') p ?dest w3 = (Inr (), w4)"
    by blast
  have d4: "dirs w4 = dirs w3"
    using log_action_Inr(3) [OF l] .
  have "\<forall>q. q \<noteq> ?dest \<and> q \<noteq> resolve E LOG_FILE \<and> q \<noteq> resolve E ROLLBACK_LOG
      \<longrightarrow> files w4 q = files w q"
    using log_action_Inr(2) [OF l] f3 c(3) e(2) by simp
  with e c a l d4 show ?thesis
    unfolding copy_step_unfold by (simp add: andthen_def)
qed

lemma copy_loop_total:
  assumes nofail: "\<forall>w op. \<not> fails E w op"
      and plain: "\<forall>framework \<in> set frameworks.
          framework \<noteq> [] \<and> sep \<notin> set framework \<and> last framework \<noteq> of_char (CHR ''t'')"
      and src: "files w (resolve E p) \<noteq> None"
      and dst: "\<forall>framework \<in> set frameworks.
          dest_path_of p framework \<notin> dirs w \<and> resolve E p \<noteq> dest_path_of p framework
          \<and> files w (dest_folder_of framework) = None"
      and logs: "resolve E LOG_FILE \<notin> dirs w" "resolve E ROLLBACK_LOG \<notin> dirs w"
  shows "\<exists>w'. copy_loop E p frameworks w = (Inr (), w')"
  using plain src dst logs
proof (induction frameworks arbitrary: w)
  case Nil
  show ?case by (simp add: ok_def)
next
  case (Cons framework frameworks)
  from Cons.prems(1) have p: "framework \<noteq> []" "sep \<notin> set framework"
    "last framework \<noteq> of_char (CHR ''t'')"
    by simp_all
  from Cons.prems(3) have d0: "dest_path_of p framework \<notin> dirs w"
    "resolve E p \<noteq> dest_path_of p framework" "files w (dest_folder_of framework) = None"
    by simp_all
  from copy_step_total [OF nofail p Cons.prems(2) d0 Cons.prems(4,5)] obtain w1 where
    s: "copy_step E p framework w = (Inr (), w1)"
      "dirs w1 \<subseteq> insert (dest_folder_of framework) (dirs w)"
      "\<forall>q. q \<noteq> dest_path_of p framework \<and> q \<noteq> resolve E LOG_FILE
          \<and> q \<noteq> resolve E ROLLBACK_LOG \<longrightarrow> files w1 q = files w q"
    by auto
  have k: "files w1 (resolve E p) \<noteq> None"
    using copy_step_kept [of E p w framework] s(1) Cons.prems(2)
    by (auto simp: kept_def)
  have d: "\<forall>f \<in> set frameworks. dest_path_of p f \<notin> dirs w1 \<and> resolve E p \<noteq> dest_path_of p f
      \<and> files w1 (dest_folder_of f) = None"
  proof
    fix f assume f: "f \<in> set frameworks"
    with Cons.prems(1) have fp: "f \<noteq> []" "sep \<notin> set f" "last f \<noteq> of_char (CHR ''t'')"
      by simp_all
    have "files w1 (dest_folder_of f) = files w (dest_folder_of f)"
      using s(3) dest_folder_not_dest_path [OF p(1,2) fp(2), of p]
        dest_folder_not_log [OF fp(1,3), of E]
      by simp
    with dest_folder_not_dest_path [OF fp(1,2) p(2), of p] f Cons.prems(3) s(2)
    show "dest_path_of p f \<notin> dirs w1 \<and> resolve E p \<noteq> dest_path_of p f
      \<and> files w1 (dest_folder_of f) = None"
      by auto
  qed
  have l: "resolve E LOG_FILE \<notin> dirs w1" "resolve E ROLLBACK_LOG \<notin> dirs w1"
    using s(2) Cons.prems(4,5) dest_folder_not_log [OF p(1,3), of E] by auto
  from Cons.IH [OF _ k d l] Cons.prems(1) obtain w' where
    "copy_loop E p frameworks w1 = (Inr (), w')"
    by auto
  with s(1) show ?case by (simp add: andthen_def)
qed

lemma classify_file_total:
  assumes "matched_frameworks E p \<noteq> []"
      and "\<forall>w op. \<not> fails E w op"
      and "files w (resolve E p) \<noteq> None"
      and "\<forall>framework \<in> set (matched_frameworks E p).
          dest_path_of p framework \<notin> dirs w \<and> resolve E p \<noteq> dest_path_of p framework
          \<and> files w (dest_folder_of framework) = None"
      and "resolve E LOG_FILE \<notin> dirs w" "resolve E ROLLBACK_LOG \<notin> dirs w"
  shows "fst (classify_file E p w) = Inr ()"
proof -
  have "\<forall>framework \<in> set (matched_frameworks E p).
      framework \<noteq> [] \<and> sep \<notin> set framework \<and> last framework \<noteq> of_char (CHR ''t'')"
    using matched_plain by blast
  from copy_loop_total [OF assms(2) this assms(3-6)] show ?thesis
    using assms(1) by (auto simp: classify_file_matched)
qed

lemma copy_loop_Inr_target:
  assumes "copy_loop E p frameworks w = (Inr u, w')"
      and "\<forall>framework \<in> set frameworks. framework \<noteq> [] \<and> sep \<notin> set framework"
  shows "\<exists>ops. trace w' = trace w @ ops
       \<and> filter is_copy ops = map (\<lambda>framework. Copy2 p (copy_target p framework)) frameworks
       \<and> list_all2 (\<lambda>op framework. \<exists>stamp.
             op = Append LOG_FILE (audit_entry stamp (lit ''COPY'') p (copy_target p framework)))
           (filter is_audit ops) frameworks"
proof -
  from copy_loop_Inr [OF assms(1)] obtain ops where
    o: "trace w' = trace w @ ops"
      "filter is_copy ops = map (\<lambda>framework. Copy2 p (dest_path_of p framework)) frameworks"
      "list_all2 (\<lambda>op framework. \<exists>stamp.
             op = Append LOG_FILE (audit_entry stamp (lit ''COPY'') p (dest_path_of p framework)))
           (filter is_audit ops) frameworks"
    by blast
  have "map (\<lambda>framework. Copy2 p (dest_path_of p framework)) frameworks
      = map (\<lambda>framework. Copy2 p (copy_target p framework)) frameworks"
    using assms(2) by (simp add: dest_path_of_eq)
  moreover have "list_all2 (\<lambda>op framework. \<exists>stamp.
             op = Append LOG_FILE (audit_entry stamp (lit ''COPY'') p (copy_target p framework)))
           (filter is_audit ops) frameworks"
  proof (rule list.rel_mono_strong [OF o(3)])
    fix op framework
    assume "framework \<in> set frameworks"
      and "\<exists>stamp. op = Append LOG_FILE
             (audit_entry stamp (lit ''COPY'') p (dest_path_of p framework))"
    with assms(2) show "\<exists>stamp. op = Append LOG_FILE
             (audit_entry stamp (lit ''COPY'') p (copy_target p framework))"
      by (simp add: dest_path_of_eq)
  qed
  ultimately show ?thesis using o(1,2) by auto
qed

text \<open>
  C3, as amended. For a file whose name matches \<open>N \<ge> 1\<close> frameworks, a classification
  that returns has performed exactly \<open>N\<close> copies and written exactly \<open>N\<close> \<open>COPY\<close> audit
  entries, one per matched framework, both in the order in which the catalog lists the
  frameworks. The classification returns whenever the environment refuses no operation,
  the source is a regular file that is not one of its own destinations, no destination
  folder is a regular file and no destination or log path is a directory.
\<close>

theorem matched_file_copies:
  assumes "matched_frameworks E p \<noteq> []"
  shows "(fst (classify_file E p w) = Inr () \<longrightarrow>
           (\<exists>ops. trace (snd (classify_file E p w)) = trace w @ ops
              \<and> filter is_copy ops
                  = map (\<lambda>framework. Copy2 p (copy_target p framework)) (matched_frameworks E p)
              \<and> list_all2 (\<lambda>op framework. \<exists>stamp.
                    op = Append LOG_FILE
                           (audit_entry stamp (lit ''COPY'') p (copy_target p framework)))
                  (filter is_audit ops) (matched_frameworks E p)
              \<and> length (filter is_copy ops) = length (matched_frameworks E p)
              \<and> length (filter is_audit ops) = length (matched_frameworks E p)
              \<and> matched_frameworks E p
                  = map fst (filter (\<lambda>(framework, ks). any_keyword (str_lower E) ks (basename p))
                      FRAMEWORKS)))
         \<and> ((\<forall>w op. \<not> fails E w op)
              \<and> files w (resolve E p) \<noteq> None
              \<and> (\<forall>framework \<in> set (matched_frameworks E p).
                    copy_target p framework \<notin> dirs w \<and> resolve E p \<noteq> copy_target p framework
                    \<and> files w (DEST_DIR @ lit ''/'' @ framework) = None)
              \<and> resolve E LOG_FILE \<notin> dirs w \<and> resolve E ROLLBACK_LOG \<notin> dirs w
              \<longrightarrow> fst (classify_file E p w) = Inr ())"
proof (intro conjI impI)
  assume "fst (classify_file E p w) = Inr ()"
  then obtain w' where "classify_file E p w = (Inr (), w')"
    by (cases "classify_file E p w") auto
  then have c: "copy_loop E p (matched_frameworks E p) w = (Inr (), w')"
    and s: "snd (classify_file E p w) = w'"
    using assms by (simp_all add: classify_file_matched)
  have "\<forall>framework \<in> set (matched_frameworks E p). framework \<noteq> [] \<and> sep \<notin> set framework"
    using matched_plain by blast
  from copy_loop_Inr_target [OF c this] obtain ops where
    o: "trace w' = trace w @ ops"
      "filter is_copy ops
         = map (\<lambda>framework. Copy2 p (copy_target p framework)) (matched_frameworks E p)"
      "list_all2 (\<lambda>op framework. \<exists>stamp.
             op = Append LOG_FILE (audit_entry stamp (lit ''COPY'') p (copy_target p framework)))
           (filter is_audit ops) (matched_frameworks E p)"
    by blast
  have "length (filter is_copy ops) = length (matched_frameworks E p)"
    using o(2) by simp
  moreover have "length (filter is_audit ops) = length (matched_frameworks E p)"
    using o(3) by (rule list_all2_lengthD)
  moreover have "matched_frameworks E p
      = map fst (filter (\<lambda>(framework, ks). any_keyword (str_lower E) ks (basename p)) FRAMEWORKS)"
    by (simp add: matched_frameworks_def match_loop_filter)
  ultimately show "\<exists>ops. trace (snd (classify_file E p w)) = trace w @ ops
              \<and> filter is_copy ops
                  = map (\<lambda>framework. Copy2 p (copy_target p framework)) (matched_frameworks E p)
              \<and> list_all2 (\<lambda>op framework. \<exists>stamp.
                    op = Append LOG_FILE
                           (audit_entry stamp (lit ''COPY'') p (copy_target p framework)))
                  (filter is_audit ops) (matched_frameworks E p)
              \<and> length (filter is_copy ops) = length (matched_frameworks E p)
              \<and> length (filter is_audit ops) = length (matched_frameworks E p)
              \<and> matched_frameworks E p
                  = map fst (filter (\<lambda>(framework, ks). any_keyword (str_lower E) ks (basename p))
                      FRAMEWORKS)"
    using o s by blast
next
  assume a: "(\<forall>w op. \<not> fails E w op)
      \<and> files w (resolve E p) \<noteq> None
      \<and> (\<forall>framework \<in> set (matched_frameworks E p).
            copy_target p framework \<notin> dirs w \<and> resolve E p \<noteq> copy_target p framework
            \<and> files w (DEST_DIR @ lit ''/'' @ framework) = None)
      \<and> resolve E LOG_FILE \<notin> dirs w \<and> resolve E ROLLBACK_LOG \<notin> dirs w"
  then have "\<forall>framework \<in> set (matched_frameworks E p).
          dest_path_of p framework \<notin> dirs w \<and> resolve E p \<noteq> dest_path_of p framework
          \<and> files w (dest_folder_of framework) = None"
    using matched_plain [of _ E p] by (auto simp: dest_path_of_eq dest_folder_of_def)
  with a show "fst (classify_file E p w) = Inr ()"
    using classify_file_total [OF assms, of w] by blast
qed

lemma matched_nist_iso: "matched_frameworks quiet_env sample_file = [lit ''NIST'', lit ''ISO'']"
  by code_simp

theorem matched_file_copies_witness:
  "matched_frameworks quiet_env sample_file = [lit ''NIST'', lit ''ISO'']
   \<and> files (one_file sample_file) (resolve quiet_env sample_file) \<noteq> None
   \<and> copy_target sample_file (lit ''NIST'') \<notin> dirs (one_file sample_file)
   \<and> copy_target sample_file (lit ''ISO'') \<notin> dirs (one_file sample_file)
   \<and> resolve quiet_env sample_file \<noteq> copy_target sample_file (lit ''NIST'')
   \<and> resolve quiet_env sample_file \<noteq> copy_target sample_file (lit ''ISO'')
   \<and> files (one_file sample_file) (DEST_DIR @ lit ''/'' @ lit ''NIST'') = None
   \<and> files (one_file sample_file) (DEST_DIR @ lit ''/'' @ lit ''ISO'') = None
   \<and> fst (classify_file quiet_env sample_file (one_file sample_file)) = Inr ()
   \<and> (\<exists>ops. trace (snd (classify_file quiet_env sample_file (one_file sample_file)))
          = trace (one_file sample_file) @ ops
        \<and> filter is_copy ops
            = [Copy2 sample_file (copy_target sample_file (lit ''NIST'')),
               Copy2 sample_file (copy_target sample_file (lit ''ISO''))]
        \<and> (\<exists>stamp1 stamp2. filter is_audit ops
            = [Append LOG_FILE (audit_entry stamp1 (lit ''COPY'') sample_file
                 (copy_target sample_file (lit ''NIST''))),
               Append LOG_FILE (audit_entry stamp2 (lit ''COPY'') sample_file
                 (copy_target sample_file (lit ''ISO'')))]))"
proof -
  let ?c = "classify_file quiet_env sample_file (one_file sample_file)"
  have m: "matched_frameworks quiet_env sample_file \<noteq> []"
    by (simp add: matched_nist_iso)
  have s: "files (one_file sample_file) (resolve quiet_env sample_file) \<noteq> None"
    by code_simp
  have d: "copy_target sample_file (lit ''NIST'') \<notin> dirs (one_file sample_file)"
    "copy_target sample_file (lit ''ISO'') \<notin> dirs (one_file sample_file)"
    by (simp_all add: one_file_def)
  have n: "resolve quiet_env sample_file \<noteq> copy_target sample_file (lit ''NIST'')"
    "resolve quiet_env sample_file \<noteq> copy_target sample_file (lit ''ISO'')"
    "files (one_file sample_file) (DEST_DIR @ lit ''/'' @ lit ''NIST'') = None"
    "files (one_file sample_file) (DEST_DIR @ lit ''/'' @ lit ''ISO'') = None"
    by code_simp+
  have l: "resolve quiet_env LOG_FILE \<notin> dirs (one_file sample_file)"
    "resolve quiet_env ROLLBACK_LOG \<notin> dirs (one_file sample_file)"
    by (simp_all add: one_file_def)
  note th = matched_file_copies [OF m, of "one_file sample_file"]
  from th quiet_env_never_fails s d n l
  have r: "fst ?c = Inr ()"
    by (simp add: matched_nist_iso)
  with th obtain ops where
    o: "trace (snd ?c) = trace (one_file sample_file) @ ops"
      "filter is_copy ops = map (\<lambda>framework. Copy2 sample_file (copy_target sample_file framework))
         (matched_frameworks quiet_env sample_file)"
      "list_all2 (\<lambda>op framework. \<exists>stamp.
          op = Append LOG_FILE (audit_entry stamp (lit ''COPY'') sample_file
                 (copy_target sample_file framework)))
        (filter is_audit ops) (matched_frameworks quiet_env sample_file)"
    by blast
  from o(3) obtain stamp1 stamp2 where
    "filter is_audit ops
       = [Append LOG_FILE (audit_entry stamp1 (lit ''COPY'') sample_file
            (copy_target sample_file (lit ''NIST''))),
          Append LOG_FILE (audit_entry stamp2 (lit ''COPY'') sample_file
            (copy_target sample_file (lit ''ISO'')))]"
    by (auto simp: matched_nist_iso list_all2_Cons2)
  with o(1,2) s d n r show ?thesis
    by (auto simp: matched_nist_iso)
qed

text \<open>
  The claim as it stands fails when an operation fails. The file matches \<open>NIST\<close> and
  \<open>ISO\<close>, so \<open>N = 2\<close>, and the copy into the \<open>ISO\<close> folder is refused: the classification
  raises with one copy made and one audit entry written.
\<close>

theorem fewer_copies_counterexample:
  "matched_frameworks iso_refused sample_file = [lit ''NIST'', lit ''ISO'']
   \<and> fst (classify_file iso_refused sample_file (one_file sample_file))
       = Inl (OSError (copy_target sample_file (lit ''ISO'')))
   \<and> filter is_copy (trace (snd (classify_file iso_refused sample_file (one_file sample_file))))
       = [Copy2 sample_file (copy_target sample_file (lit ''NIST''))]
   \<and> filter is_audit (trace (snd (classify_file iso_refused sample_file (one_file sample_file))))
       = [Append LOG_FILE (audit_entry (lit ''T'') (lit ''COPY'') sample_file
            (copy_target sample_file (lit ''NIST'')))]"
  by code_simp

subsection \<open>Errors propagate\<close>

lemma copy_loop_stops:
  "copy_loop E p earlier w = (Inr (), w1) \<Longrightarrow> copy_step E p framework w1 = (Inl e, w2) \<Longrightarrow>
     copy_loop E p (earlier @ framework # later) w = (Inl e, w2)"
proof (induction earlier arbitrary: w)
  case Nil
  then show ?case by (simp add: ok_def andthen_def)
next
  case (Cons x earlier)
  from Cons.prems(1) obtain w' where
    s: "copy_step E p x w = (Inr (), w')" and r: "copy_loop E p earlier w' = (Inr (), w1)"
    by (auto dest!: andthen_InrD)
  from Cons.IH [OF r Cons.prems(2)] s show ?case
    by (simp add: andthen_def)
qed

lemma file_loop_stops:
  "file_loop E root names1 w = (Inr (), w1) \<Longrightarrow>
   classify_file E (path_join root file) w1 = (Inl e, w2) \<Longrightarrow>
     file_loop E root (names1 @ file # names2) w = (Inl e, w2)"
proof (induction names1 arbitrary: w)
  case Nil
  then show ?case by (simp add: ok_def andthen_def)
next
  case (Cons x names1)
  from Cons.prems(1) obtain w' where
    s: "classify_file E (path_join root x) w = (Inr (), w')" and
    r: "file_loop E root names1 w' = (Inr (), w1)"
    by (auto dest!: andthen_InrD)
  from Cons.IH [OF r Cons.prems(2)] s show ?case
    by (simp add: andthen_def)
qed

lemma walk_loop_stops:
  "walk_loop E earlier w = (Inr (), w1) \<Longrightarrow> file_loop E root names w1 = (Inl e, w2) \<Longrightarrow>
     walk_loop E (earlier @ (root, subdirs, names) # later) w = (Inl e, w2)"
proof (induction earlier arbitrary: w)
  case Nil
  then show ?case by (simp add: ok_def andthen_def)
next
  case (Cons x earlier)
  obtain r0 s0 n0 where x: "x = (r0, s0, n0)" by (cases x)
  from Cons.prems(1) obtain w' where
    s: "file_loop E r0 n0 w = (Inr (), w')" and
    r: "walk_loop E earlier w' = (Inr (), w1)"
    unfolding x by (auto dest!: andthen_InrD)
  from Cons.IH [OF r Cons.prems(2)] s show ?case
    by (simp add: andthen_def x)
qed






text \<open>
  C9, as amended. A failure of the note service is fatal for the file being classified:
  \<open>classify_file\<close> raises it. The copy already made for the current framework stays in
  place, but no audit or rollback entry is written for it and the frameworks after it are
  not copied; for an unmatched file no \<open>LEAVE\<close> entry is written.
\<close>

theorem note_failure_propagates:
  assumes "matched_frameworks E p = earlier @ framework # later"
      and "copy_loop E p earlier w = (Inr (), w1)"
      and "ensure_dir E (dest_folder_of framework) w1 = (Inr (), w2)"
      and "copy2 E p (dest_path_of p framework) w2 = (Inr (), w3)"
      and "assign_joplin_tags E p [lit ''framework:'' @ framework] w3 = (Inl e, w4)"
  shows "classify_file E p w = (Inl e, w4)
         \<and> files w4 = files w3
         \<and> (\<exists>ops. trace w4 = trace w3 @ ops \<and> filter is_append ops = [])
         \<and> (matched_frameworks E q = []
              \<and> assign_joplin_tags E q [lit ''status:Unclassified''] v = (Inl e', v')
              \<longrightarrow> classify_file E q v = (Inl e', v'))"
proof (intro conjI impI)
  have "copy_step E p framework w1 = (Inl e, w4)"
    using assms(3-5) unfolding copy_step_unfold by (simp add: andthen_def)
  from copy_loop_stops [OF assms(2) this] show "classify_file E p w = (Inl e, w4)"
    using assms(1) by (simp add: classify_file_def)
  from assign_joplin_tags_trace [OF assms(5)] obtain ops where
    o: "trace w4 = trace w3 @ ops" "\<forall>op \<in> set ops. is_joplin op" "files w4 = files w3"
    by blast
  show "files w4 = files w3" by (rule o(3))
  show "\<exists>ops. trace w4 = trace w3 @ ops \<and> filter is_append ops = []"
    using o(1) joplin_ops_filters [OF o(2)] by blast
next
  assume "matched_frameworks E q = []
      \<and> assign_joplin_tags E q [lit ''status:Unclassified''] v = (Inl e', v')"
  then show "classify_file E q v = (Inl e', v')"
    by (simp add: classify_file_def andthen_def)
qed

theorem note_failure_propagates_witness:
  "matched_frameworks joplin_down sample_file = [] @ lit ''NIST'' # [lit ''ISO'']
   \<and> fst (ensure_dir joplin_down (dest_folder_of (lit ''NIST'')) (one_file sample_file)) = Inr ()
   \<and> fst (copy2 joplin_down sample_file (dest_path_of sample_file (lit ''NIST''))
            (snd (ensure_dir joplin_down (dest_folder_of (lit ''NIST'')) (one_file sample_file)))) = Inr ()
   \<and> fst (classify_file joplin_down sample_file (one_file sample_file)) = Inl JoplinError
   \<and> files (snd (classify_file joplin_down sample_file (one_file sample_file)))
       = files (snd (copy2 joplin_down sample_file (dest_path_of sample_file (lit ''NIST''))
            (snd (ensure_dir joplin_down (dest_folder_of (lit ''NIST'')) (one_file sample_file)))))
   \<and> matched_frameworks joplin_down (lit ''/in/b'') = []
   \<and> fst (classify_file joplin_down (lit ''/in/b'') (one_file (lit ''/in/b''))) = Inl JoplinError"
proof -
  let ?w = "one_file sample_file"
  let ?w2 = "snd (ensure_dir joplin_down (dest_folder_of (lit ''NIST'')) ?w)"
  let ?w3 = "snd (copy2 joplin_down sample_file (dest_path_of sample_file (lit ''NIST'')) ?w2)"
  let ?a = "assign_joplin_tags joplin_down sample_file [lit ''framework:'' @ lit ''NIST''] ?w3"
  let ?b = "assign_joplin_tags joplin_down (lit ''/in/b'') [lit ''status:Unclassified''] (one_file (lit ''/in/b''))"
  have m: "matched_frameworks joplin_down sample_file = [] @ lit ''NIST'' # [lit ''ISO'']"
    by code_simp
  have mb: "matched_frameworks joplin_down (lit ''/in/b'') = []"
    by code_simp
  have l: "copy_loop joplin_down sample_file [] ?w = (Inr (), ?w)"
    by (simp add: ok_def)
  have e: "fst (ensure_dir joplin_down (dest_folder_of (lit ''NIST'')) ?w) = Inr ()"
    by code_simp
  have c: "fst (copy2 joplin_down sample_file (dest_path_of sample_file (lit ''NIST'')) ?w2) = Inr ()"
    by code_simp
  have a: "fst ?a = Inl JoplinError"
    by code_simp
  have b: "fst ?b = Inl JoplinError"
    by code_simp
  note th = note_failure_propagates [OF m l result_pair [OF e] result_pair [OF c] result_pair [OF a],
      of "lit ''/in/b''" "one_file (lit ''/in/b'')" JoplinError "snd ?b"]
  from th have "classify_file joplin_down sample_file ?w = (Inl JoplinError, snd ?a)"
    "files (snd ?a) = files ?w3"
    by blast+
  moreover from th mb result_pair [OF b]
  have "classify_file joplin_down (lit ''/in/b'') (one_file (lit ''/in/b'')) = (Inl JoplinError, snd ?b)"
    by blast
  ultimately show ?thesis
    using m e c mb by simp
qed

text \<open>
  With the note service down, the file that matches \<open>NIST\<close> and \<open>ISO\<close> is copied into the
  \<open>NIST\<close> folder and the classification ends with the error of the service: neither log
  has an entry for the copy, and the \<open>ISO\<close> copy is not made.
\<close>

theorem note_failure_counterexample:
  "matched_frameworks joplin_down sample_file = [lit ''NIST'', lit ''ISO'']
   \<and> fst (classify_file joplin_down sample_file (one_file sample_file))
       = Inl JoplinError
   \<and> trace (snd (classify_file joplin_down sample_file (one_file sample_file)))
       = [Makedirs (dest_folder_of (lit ''NIST'')),
          Copy2 sample_file (dest_path_of sample_file (lit ''NIST''))]
   \<and> files (snd (classify_file joplin_down sample_file (one_file sample_file)))
         (dest_path_of sample_file (lit ''NIST'')) = Some (lit ''data'')
   \<and> files (snd (classify_file joplin_down sample_file (one_file sample_file)))
         (resolve joplin_down LOG_FILE) = None
   \<and> files (snd (classify_file joplin_down sample_file (one_file sample_file)))
         (resolve joplin_down ROLLBACK_LOG) = None
   \<and> files (snd (classify_file joplin_down sample_file (one_file sample_file)))
         (dest_path_of sample_file (lit ''ISO'')) = None"
  by code_simp

text \<open>
  C8, as amended. During a directory walk, an error while processing one file leaves
  \<open>process_files\<close> at once; the handler around the run reports it once, and the files
  after the failing one are not processed.
\<close>

theorem walk_stops_at_first_error:
  assumes "os_walk E base_dir = earlier @ (root, subdirs, names1 @ file # names2) # later"
      and "walk_loop E earlier w = (Inr (), w1)"
      and "file_loop E root names1 w1 = (Inr (), w2)"
      and "classify_file E (path_join root file) w2 = (Inl e, w3)"
  shows "process_files E base_dir w = (Inl e, w3)
         \<and> (base_dir = lit ''/home/dan/Business/BanksArchive/SSB_ProjectMgmt''
              \<longrightarrow> main E w = w3\<lparr>trace := trace w3 @ [PrintError e]\<rparr>)"
proof -
  have "file_loop E root (names1 @ file # names2) w1 = (Inl e, w3)"
    using file_loop_stops [OF assms(3,4)] .
  from walk_loop_stops [OF assms(2) this]
  have "process_files E base_dir w = (Inl e, w3)"
    by (simp add: process_files_def assms(1))
  then show ?thesis
    by (auto simp: main_def print_def)
qed

theorem walk_stops_at_first_error_witness:
  "os_walk walk_env (lit ''/home/dan/Business/BanksArchive/SSB_ProjectMgmt'')
       = [] @ (lit ''/in'', [], [] @ lit ''nist a'' # [lit ''b'']) # []
   \<and> fst (classify_file walk_env (path_join (lit ''/in'') (lit ''nist a'')) two_files)
       = Inl (OSError (dest_path_of (lit ''/in/nist a'') (lit ''NIST'')))
   \<and> process_files walk_env (lit ''/home/dan/Business/BanksArchive/SSB_ProjectMgmt'') two_files
       = (Inl (OSError (dest_path_of (lit ''/in/nist a'') (lit ''NIST''))),
          snd (classify_file walk_env (path_join (lit ''/in'') (lit ''nist a'')) two_files))
   \<and> main walk_env two_files
       = (snd (classify_file walk_env (path_join (lit ''/in'') (lit ''nist a'')) two_files))
           \<lparr>trace := trace (snd (classify_file walk_env (path_join (lit ''/in'') (lit ''nist a'')) two_files))
              @ [PrintError (OSError (dest_path_of (lit ''/in/nist a'') (lit ''NIST'')))]\<rparr>"
proof -
  let ?c = "classify_file walk_env (path_join (lit ''/in'') (lit ''nist a'')) two_files"
  have o: "os_walk walk_env (lit ''/home/dan/Business/BanksArchive/SSB_ProjectMgmt'')
       = [] @ (lit ''/in'', [], [] @ lit ''nist a'' # [lit ''b'']) # []"
    by (simp add: walk_env_def)
  have w: "walk_loop walk_env [] two_files = (Inr (), two_files)"
    by (simp add: ok_def)
  have f: "file_loop walk_env (lit ''/in'') [] two_files = (Inr (), two_files)"
    by (simp add: ok_def)
  have c: "fst ?c = Inl (OSError (dest_path_of (lit ''/in/nist a'') (lit ''NIST'')))"
    by code_simp
  from walk_stops_at_first_error [OF o w f result_pair [OF c]] show ?thesis
    using o c by simp
qed

text \<open>
  The walk yields two files. The copy of the first is refused; the second, which would
  be classified without an error, is never processed: the run ends with the one report
  and no audit log has been written.
\<close>

theorem walk_aborts_counterexample:
  "os_walk walk_env (lit ''/home/dan/Business/BanksArchive/SSB_ProjectMgmt'')
       = [(lit ''/in'', [], [lit ''nist a'', lit ''b''])]
   \<and> fst (classify_file walk_env (lit ''/in/nist a'') two_files)
       = Inl (OSError (dest_path_of (lit ''/in/nist a'') (lit ''NIST'')))
   \<and> fst (classify_file walk_env (lit ''/in/b'') two_files) = Inr ()
   \<and> trace (main walk_env two_files)
       = [Makedirs (dest_folder_of (lit ''NIST'')), PrintError (OSError (dest_path_of (lit ''/in/nist a'') (lit ''NIST'')))]
   \<and> files (main walk_env two_files) (resolve walk_env LOG_FILE) = None"
  by code_simp

end
